theory Spec2Isabelle
  imports Main "HOL-Library.Sublist"
begin

section \<open>Regular expressions as used by the converter\<close>

text \<open>
  The converter decides everything about the surface syntax with JavaScript regular
  expressions. None of them uses back-references or look-around, so \<open>RegExp.test\<close>
  answers exactly whether some substring (restricted by the anchors) belongs to the
  regular language of the pattern. Patterns are kept as syntax trees; \<open>lang\<close> is their
  meaning and \<open>matches\<close> is an executable matcher built on derivatives.

  Strings are lists of \<open>char\<close>, i.e. code units below 256.
\<close>

datatype regex =
    Never
  | Empty
  | Cls "char list"
  | Seq regex regex
  | Alt regex regex
  | Many regex

definition cat :: "string set \<Rightarrow> string set \<Rightarrow> string set" where
  "cat A B = {u @ v | u v. u \<in> A \<and> v \<in> B}"

inductive_set rept :: "string set \<Rightarrow> string set" for A :: "string set" where
  rept_nil: "[] \<in> rept A"
| rept_step: "u \<in> A \<Longrightarrow> v \<in> rept A \<Longrightarrow> u @ v \<in> rept A"

fun lang :: "regex \<Rightarrow> string set" where
  "lang Never = {}"
| "lang Empty = {[]}"
| "lang (Cls cs) = {[c] | c. c \<in> set cs}"
| "lang (Seq r s) = cat (lang r) (lang s)"
| "lang (Alt r s) = lang r \<union> lang s"
| "lang (Many r) = rept (lang r)"

fun nullable :: "regex \<Rightarrow> bool" where
  "nullable Never = False"
| "nullable Empty = True"
| "nullable (Cls cs) = False"
| "nullable (Seq r s) = (nullable r \<and> nullable s)"
| "nullable (Alt r s) = (nullable r \<or> nullable s)"
| "nullable (Many r) = True"

text \<open>Constructors that drop dead branches, so that derivatives stay small.\<close>

fun seq :: "regex \<Rightarrow> regex \<Rightarrow> regex" where
  "seq Never s = Never"
| "seq r Never = Never"
| "seq Empty s = s"
| "seq r s = Seq r s"

fun alt :: "regex \<Rightarrow> regex \<Rightarrow> regex" where
  "alt Never s = s"
| "alt r Never = r"
| "alt r s = Alt r s"

fun deriv :: "char \<Rightarrow> regex \<Rightarrow> regex" where
  "deriv c Never = Never"
| "deriv c Empty = Never"
| "deriv c (Cls cs) = (if c \<in> set cs then Empty else Never)"
| "deriv c (Seq r s) =
     (if nullable r then alt (seq (deriv c r) s) (deriv c s) else seq (deriv c r) s)"
| "deriv c (Alt r s) = alt (deriv c r) (deriv c s)"
| "deriv c (Many r) = seq (deriv c r) (Many r)"

fun matches :: "regex \<Rightarrow> string \<Rightarrow> bool" where
  "matches r [] = nullable r"
| "matches r (c # w) = matches (deriv c r) w"

text \<open>The characters a pattern can consume.\<close>

fun alphabet :: "regex \<Rightarrow> char set" where
  "alphabet Never = {}"
| "alphabet Empty = {}"
| "alphabet (Cls cs) = set cs"
| "alphabet (Seq r s) = alphabet r \<union> alphabet s"
| "alphabet (Alt r s) = alphabet r \<union> alphabet s"
| "alphabet (Many r) = alphabet r"

text \<open>The four ways the source anchors a pattern.\<close>

definition test_whole :: "regex \<Rightarrow> string \<Rightarrow> bool" where
  \<comment> \<open>\<open>/^r$/.test(s)\<close>\<close>
  "test_whole r s = matches r s"

definition test_start :: "regex \<Rightarrow> string \<Rightarrow> bool" where
  \<comment> \<open>\<open>/^r/.test(s)\<close>: some prefix of \<open>s\<close> matches\<close>
  "test_start r s = list_ex (matches r) (prefixes s)"

definition test_end :: "regex \<Rightarrow> string \<Rightarrow> bool" where
  \<comment> \<open>\<open>/r$/.test(s)\<close>: some suffix of \<open>s\<close> matches\<close>
  "test_end r s = list_ex (matches r) (suffixes s)"

definition test_any :: "regex \<Rightarrow> string \<Rightarrow> bool" where
  \<comment> \<open>\<open>/r/.test(s)\<close>: some substring of \<open>s\<close> matches\<close>
  "test_any r s = list_ex (test_start r) (suffixes s)"

text \<open>Pattern fragments shared by the source's patterns.\<close>

definition opt :: "regex \<Rightarrow> regex" where
  \<comment> \<open>\<open>r?\<close>\<close>
  "opt r = Alt r Empty"

definition lit :: "string \<Rightarrow> regex" where
  \<comment> \<open>a literal run of characters\<close>
  "lit s = foldr (\<lambda>c r. Seq (Cls [c]) r) s Empty"

definition space_chars :: "char list" where
  \<comment> \<open>the code units below 256 that \<open>\s\<close> matches: TAB, LF, VT, FF, CR, space, NBSP\<close>
  "space_chars = [CHR 0x09, CHR 0x0A, CHR 0x0B, CHR 0x0C, CHR 0x0D, CHR 0x20, CHR 0xA0]"

definition spaces :: regex where
  \<comment> \<open>\<open>\s*\<close>\<close>
  "spaces = Many (Cls space_chars)"

definition digit :: regex where
  \<comment> \<open>\<open>[0-9]\<close>\<close>
  "digit = Cls ''0123456789''"

section \<open>The grammar validator\<close>

datatype error = InvalidEdtf string | TypeError

definition modifier :: regex where
  \<comment> \<open>\<open>([?~%])\<close>\<close>
  "modifier = Cls ''?~%''"

definition date :: regex where
  \<comment> \<open>\<open>[0-9]{4}(-(0[1-9]|1[0-2])(-([0-2][1-9]|3[0-1]))?)?\<close>\<close>
  "date =
     Seq digit (Seq digit (Seq digit (Seq digit
       (opt (Seq (Cls ''-'')
          (Seq (Alt (Seq (Cls ''0'') (Cls ''123456789'')) (Seq (Cls ''1'') (Cls ''012'')))
             (opt (Seq (Cls ''-'')
                (Alt (Seq (Cls ''012'') (Cls ''123456789''))
                     (Seq (Cls ''3'') (Cls ''01'')))))))))))"

definition edtfSection :: regex where
  \<comment> \<open>\<open>(${modifier}?\s*${date}\s*${modifier}?)\<close>\<close>
  "edtfSection = Seq (opt modifier) (Seq spaces (Seq date (Seq spaces (opt modifier))))"

definition openStart :: regex where
  \<comment> \<open>\<open>(\[(\s*\.\.)?)\<close>\<close>
  "openStart = Seq (Cls ''['') (opt (Seq spaces (lit ''..'')))"

definition openEnd :: regex where
  \<comment> \<open>\<open>((\.\.\s*)?])\<close>\<close>
  "openEnd = Seq (opt (Seq (lit ''..'') spaces)) (Cls '']'')"

definition edtfRegex :: regex where
  \<comment> \<open>\<open>^\s*${openStart}?\s*${edtfSection}\s*(\/\s*${edtfSection}|${openEnd}?)?\s*$\<close>\<close>
  "edtfRegex =
     Seq spaces (Seq (opt openStart) (Seq spaces (Seq edtfSection (Seq spaces
       (Seq (opt (Alt (Seq (Cls ''/'') (Seq spaces edtfSection)) (opt openEnd)))
          spaces)))))"

definition validateEdtfPart :: "string \<Rightarrow> error + unit" where
  "validateEdtfPart edtf =
     (if \<not> test_whole edtfRegex edtf then Inl (InvalidEdtf edtf) else Inr ())"

text \<open>
  \<open>s.split('/')\<close>: the pieces between the separators. The result always has at least
  one piece; an empty input gives one empty piece.
\<close>

fun split_slash :: "string \<Rightarrow> string list" where
  "split_slash [] = [[]]"
| "split_slash (c # cs) =
     (if c = CHR ''/'' then [] # split_slash cs
      else (case split_slash cs of
              [] \<Rightarrow> [[c]]
            | p # ps \<Rightarrow> (c # p) # ps))"

text \<open>
  \<open>validateEdtf\<close> looks at the first piece and, when it is a non-empty string, at the
  second one (\<open>if (edtfArray[1])\<close>: a missing piece and the empty string are both falsy).
  The split never returns an empty array, so the branch for it is never taken.
\<close>

definition validateEdtf :: "string \<Rightarrow> error + unit" where
  "validateEdtf edtf =
     (case split_slash edtf of
        [] \<Rightarrow> Inl TypeError
      | p # rest \<Rightarrow>
          (case validateEdtfPart p of
             Inl e \<Rightarrow> Inl e
           | Inr u \<Rightarrow>
               (case rest of
                  [] \<Rightarrow> Inr ()
                | q # others \<Rightarrow> (if q \<noteq> [] then validateEdtfPart q else Inr ()))))"

section \<open>Calendar instants\<close>

text \<open>
  The converter computes with Moment.js values in UTC. A moment is either an invalid
  date or a calendar instant of the proleptic Gregorian calendar. Months are numbered
  1 to 12 here (the library counts them from 0 internally). Every operation leaves an
  invalid date as it is, as the library does.
\<close>

record civil =
  year :: int
  month :: int
  day :: int
  hour :: int
  minute :: int
  second :: int
  millisecond :: int

datatype moment = InvalidDate | Moment civil

datatype date_format = YYYY | YYYY_MM | YYYY_MM_DD

datatype unit_of_time = Year | Month | Day

definition isLeapYear :: "int \<Rightarrow> bool" where
  "isLeapYear y = ((y mod 4 = 0 \<and> y mod 100 \<noteq> 0) \<or> y mod 400 = 0)"

definition daysInMonth :: "int \<Rightarrow> int \<Rightarrow> int" where
  "daysInMonth y m =
     (if m = 2 then (if isLeapYear y then 29 else 28)
      else if m = 4 \<or> m = 6 \<or> m = 9 \<or> m = 11 then 30 else 31)"

definition is_digit :: "char \<Rightarrow> bool" where
  "is_digit c = (c \<in> set ''0123456789'')"

definition toInt :: "string \<Rightarrow> int" where
  \<comment> \<open>the number a run of decimal digits denotes\<close>
  "toInt s = foldl (\<lambda>a c. 10 * a + (int (of_char c) - 48)) 0 s"

definition createUTCDate :: "int \<Rightarrow> int \<Rightarrow> int \<Rightarrow> moment" where
  \<comment> \<open>a date-only instant, or an invalid date when a field overflows its range\<close>
  "createUTCDate y m d =
     (if 1 \<le> m \<and> m \<le> 12 \<and> 1 \<le> d \<and> d \<le> daysInMonth y m
      then Moment \<lparr>year = y, month = m, day = d,
                   hour = 0, minute = 0, second = 0, millisecond = 0\<rparr>
      else InvalidDate)"

text \<open>
  \<open>moment.utc(s, format)\<close> without strict mode walks through the tokens of the
  template; each token consumes its first match anywhere in what is left of the string
  and a token without a match consumes nothing. \<open>YYYY\<close> matches one to four digits,
  \<open>MM\<close> and \<open>DD\<close> one or two, a dash matches a dash. A date with no year is
  invalid, a missing month or day counts as 1, and a month or day that overflows makes
  the date invalid.
\<close>

definition match_digits :: "nat \<Rightarrow> string \<Rightarrow> (string \<times> string) option" where
  \<comment> \<open>the first match of \<open>\d{1,n}\<close> and the text after it\<close>
  "match_digits n s =
     (let t = dropWhile (\<lambda>c. \<not> is_digit c) s;
          found = takeWhile is_digit (take n t)
      in if t = [] then None else Some (found, drop (length found) t))"

definition match_dash :: "string \<Rightarrow> string" where
  \<comment> \<open>the text after the first dash, or the whole text when there is none\<close>
  "match_dash s =
     (if CHR ''-'' \<in> set s then tl (dropWhile (\<lambda>c. c \<noteq> CHR ''-'') s) else s)"

definition parseYear :: "string \<Rightarrow> int" where
  \<comment> \<open>two digits are read as a year of the current or the last century\<close>
  "parseYear ys =
     (if length ys = 2 then toInt ys + (if 68 < toInt ys then 1900 else 2000) else toInt ys)"

definition moment_utc :: "string \<Rightarrow> date_format \<Rightarrow> moment" where
  "moment_utc s f =
     (case match_digits 4 s of
        None \<Rightarrow> InvalidDate
      | Some (ys, afterYear) \<Rightarrow>
          (case f of
             YYYY \<Rightarrow> createUTCDate (parseYear ys) 1 1
           | YYYY_MM \<Rightarrow>
               (case match_digits 2 (match_dash afterYear) of
                  None \<Rightarrow> createUTCDate (parseYear ys) 1 1
                | Some (ms, afterMonth) \<Rightarrow> createUTCDate (parseYear ys) (toInt ms) 1)
           | YYYY_MM_DD \<Rightarrow>
               (case match_digits 2 (match_dash afterYear) of
                  None \<Rightarrow> createUTCDate (parseYear ys) 1 1
                | Some (ms, afterMonth) \<Rightarrow>
                    (case match_digits 2 (match_dash afterMonth) of
                       None \<Rightarrow> createUTCDate (parseYear ys) (toInt ms) 1
                     | Some (ds, afterDay) \<Rightarrow>
                         createUTCDate (parseYear ys) (toInt ms) (toInt ds)))))"

text \<open>
  A moment wraps a JavaScript \<open>Date\<close>, whose time value (milliseconds since
  1970-01-01T00:00:00Z) is at most 8.64e15 in absolute value. A date computed outside
  this range is an invalid date. Parsed years lie between 0 and 9999, well inside it.
\<close>

definition dayFromYear :: "int \<Rightarrow> int" where
  "dayFromYear y =
     365 * (y - 1970) + (y - 1969) div 4 - (y - 1901) div 100 + (y - 1601) div 400"

definition daysBeforeMonth :: "int \<Rightarrow> int \<Rightarrow> int" where
  \<comment> \<open>the days of the year \<open>y\<close> that lie before its month \<open>m\<close>\<close>
  "daysBeforeMonth y m =
     (if m \<le> 1 then 0 else if m = 2 then 31
      else (if isLeapYear y then 1 else 0)
         + (if m = 3 then 59 else if m = 4 then 90 else if m = 5 then 120
            else if m = 6 then 151 else if m = 7 then 181 else if m = 8 then 212
            else if m = 9 then 243 else if m = 10 then 273 else if m = 11 then 304
            else 334))"

definition timeValue :: "civil \<Rightarrow> int" where
  "timeValue c =
     (dayFromYear (year c) + daysBeforeMonth (year c) (month c) + day c - 1) * 86400000
     + hour c * 3600000 + minute c * 60000 + second c * 1000 + millisecond c"

definition in_range :: "civil \<Rightarrow> bool" where
  "in_range c = (\<bar>timeValue c\<bar> \<le> 8640000000000000)"

definition clip :: "civil \<Rightarrow> moment" where
  "clip c = (if in_range c then Moment c else InvalidDate)"

definition add_months :: "int \<Rightarrow> civil \<Rightarrow> civil" where
  \<comment> \<open>month arithmetic carries into the year and clamps the day to the target month\<close>
  "add_months k c =
     (let total = year c * 12 + (month c - 1) + k;
          y = total div 12;
          m = total mod 12 + 1
      in c\<lparr>year := y, month := m, day := min (day c) (daysInMonth y m)\<rparr>)"

definition next_day :: "civil \<Rightarrow> civil" where
  "next_day c =
     (if day c < daysInMonth (year c) (month c) then c\<lparr>day := day c + 1\<rparr>
      else if month c < 12 then c\<lparr>month := month c + 1, day := 1\<rparr>
      else c\<lparr>year := year c + 1, month := 1, day := 1\<rparr>)"

definition prev_day :: "civil \<Rightarrow> civil" where
  "prev_day c =
     (if 1 < day c then c\<lparr>day := day c - 1\<rparr>
      else if 1 < month c
        then c\<lparr>month := month c - 1, day := daysInMonth (year c) (month c - 1)\<rparr>
      else c\<lparr>year := year c - 1, month := 12, day := 31\<rparr>)"

function add_days :: "int \<Rightarrow> civil \<Rightarrow> civil" where
  "add_days k c =
     (if 0 < k then add_days (k - 1) (next_day c)
      else if k < 0 then add_days (k + 1) (prev_day c)
      else c)"
  by pat_completeness auto
termination
  by (relation "measure (\<lambda>(k, c). nat \<bar>k\<bar>)") auto

declare add_days.simps [simp del]

text \<open>
  \<open>add\<close> and \<open>subtract\<close> turn years into months; a zero amount leaves the moment
  untouched.
\<close>

fun moment_add :: "int \<Rightarrow> unit_of_time \<Rightarrow> moment \<Rightarrow> moment" where
  "moment_add v u InvalidDate = InvalidDate"
| "moment_add v Year (Moment c) = (if v = 0 then Moment c else clip (add_months (12 * v) c))"
| "moment_add v Month (Moment c) = (if v = 0 then Moment c else clip (add_months v c))"
| "moment_add v Day (Moment c) = (if v = 0 then Moment c else clip (add_days v c))"

definition moment_subtract :: "int \<Rightarrow> unit_of_time \<Rightarrow> moment \<Rightarrow> moment" where
  "moment_subtract v u m = moment_add (- v) u m"

fun startOf :: "unit_of_time \<Rightarrow> moment \<Rightarrow> moment" where
  "startOf u InvalidDate = InvalidDate"
| "startOf Year (Moment c) =
     clip (c\<lparr>month := 1, day := 1, hour := 0, minute := 0, second := 0, millisecond := 0\<rparr>)"
| "startOf Month (Moment c) =
     clip (c\<lparr>day := 1, hour := 0, minute := 0, second := 0, millisecond := 0\<rparr>)"
| "startOf Day (Moment c) =
     clip (c\<lparr>hour := 0, minute := 0, second := 0, millisecond := 0\<rparr>)"

fun endOf :: "unit_of_time \<Rightarrow> moment \<Rightarrow> moment" where
  "endOf u InvalidDate = InvalidDate"
| "endOf Year (Moment c) =
     clip (c\<lparr>month := 12, day := 31,
             hour := 23, minute := 59, second := 59, millisecond := 999\<rparr>)"
| "endOf Month (Moment c) =
     clip (c\<lparr>day := daysInMonth (year c) (month c),
             hour := 23, minute := 59, second := 59, millisecond := 999\<rparr>)"
| "endOf Day (Moment c) =
     clip (c\<lparr>hour := 23, minute := 59, second := 59, millisecond := 999\<rparr>)"

text \<open>
  Chronological order. Comparing the fields from the year down is the order of the
  instants; an invalid date has the time value NaN and is in no order relation with
  anything, itself included.
\<close>

fun lex_le :: "int list \<Rightarrow> int list \<Rightarrow> bool" where
  "lex_le [] ys = True"
| "lex_le (x # xs) [] = False"
| "lex_le (x # xs) (y # ys) = (x < y \<or> (x = y \<and> lex_le xs ys))"

definition calendar_fields :: "civil \<Rightarrow> int list" where
  "calendar_fields c = [year c, month c, day c, hour c, minute c, second c, millisecond c]"

fun moment_le :: "moment \<Rightarrow> moment \<Rightarrow> bool" where
  "moment_le (Moment a) (Moment b) = lex_le (calendar_fields a) (calendar_fields b)"
| "moment_le _ _ = False"

definition well_formed :: "civil \<Rightarrow> bool" where
  \<comment> \<open>the fields denote an instant that exists\<close>
  "well_formed c =
     (1 \<le> month c \<and> month c \<le> 12 \<and> 1 \<le> day c \<and> day c \<le> daysInMonth (year c) (month c)
      \<and> 0 \<le> hour c \<and> hour c \<le> 23 \<and> 0 \<le> minute c \<and> minute c \<le> 59
      \<and> 0 \<le> second c \<and> second c \<le> 59 \<and> 0 \<le> millisecond c \<and> millisecond c \<le> 999)"

section \<open>Options and parse results\<close>

text \<open>
  A custom modifier carries a pattern and two string transforms supplied by the caller.
  The pattern is represented by the predicate its \<open>test\<close> method computes.
\<close>

record ICustomModifier =
  keyword :: string
  modifierRegex :: "string \<Rightarrow> bool"
  addModifierFn :: "string \<Rightarrow> string"
  removeModifierFn :: "string \<Rightarrow> string"

record ApproximateVariance =
  days :: int
  months :: int
  years :: int

record IOptions =
  approximateVariance :: ApproximateVariance
  customModifiers :: "ICustomModifier list"
  locales :: "string list"

definition DEFAULT_OPTIONS :: IOptions where
  "DEFAULT_OPTIONS =
     \<lparr>approximateVariance = \<lparr>days = 3, months = 3, years = 3\<rparr>,
      customModifiers = [],
      locales = [''en'']\<rparr>"

definition sampleOptions :: IOptions where
  \<comment> \<open>options with a different variance for each unit, for concrete runs\<close>
  "sampleOptions =
     \<lparr>approximateVariance = \<lparr>days = 5, months = 2, years = 1\<rparr>,
      customModifiers = [],
      locales = [''en'']\<rparr>"

record IEdtfPartResult =
  cleanEdtf :: string
  detectedModifiers :: "ICustomModifier list"
  format :: date_format
  hasOpenEnd :: bool
  hasOpenStart :: bool
  isApproximate :: bool
  isUncertain :: bool
  maxDate :: moment
  minDate :: moment

record IParseEdtfResult =
  primaryPart :: IEdtfPartResult
  secondaryPart :: "IEdtfPartResult option"

record IDate =
  min_moment :: "moment option"
  max_moment :: "moment option"

section \<open>Parsing one piece\<close>

text \<open>
  The loop over the custom modifiers: each one is tested against the piece as the
  earlier ones left it; a modifier that matches is recorded and its remover applied.
\<close>

fun removeCustomModifiers ::
  "ICustomModifier list \<Rightarrow> ICustomModifier list \<times> string \<Rightarrow> ICustomModifier list \<times> string"
where
  "removeCustomModifiers [] acc = acc"
| "removeCustomModifiers (m # ms) (detected, edtfPart) =
     (if modifierRegex m edtfPart
      then removeCustomModifiers ms (detected @ [m], removeModifierFn m edtfPart)
      else removeCustomModifiers ms (detected, edtfPart))"

definition approximateRegex :: regex where
  \<comment> \<open>\<open>/[~%]/g\<close>\<close>
  "approximateRegex = Cls ''~%''"

definition uncertainRegex :: regex where
  \<comment> \<open>\<open>/[\?%]/g\<close>\<close>
  "uncertainRegex = Cls ''?%''"

definition openStartRegex :: regex where
  \<comment> \<open>\<open>/^\[\s*\.\./\<close>\<close>
  "openStartRegex = Seq (Cls ''['') (Seq spaces (lit ''..''))"

definition openEndRegex :: regex where
  \<comment> \<open>\<open>/\.\.\s*]$/\<close>\<close>
  "openEndRegex = Seq (lit ''..'') (Seq spaces (Cls '']''))"

definition stripped_chars :: "char list" where
  \<comment> \<open>the class of \<open>/[\[\.\[\]\?~%\s]/g\<close>\<close>
  "stripped_chars = ''[.[]?~%'' @ space_chars"

definition parsePart :: "IOptions \<Rightarrow> string \<Rightarrow> error + IEdtfPartResult" where
  "parsePart opts rawPart =
     (let (detected, edtfPart) = removeCustomModifiers (customModifiers opts) ([], rawPart)
      in case validateEdtfPart edtfPart of
           Inl e \<Rightarrow> Inl e
         | Inr ok \<Rightarrow>
             (let approximate = test_any approximateRegex edtfPart;
                  clean = filter (\<lambda>c. c \<notin> set stripped_chars) edtfPart;
                  (fmt, unit, variance) =
                    (if length clean = 4
                       then (YYYY, Year, years (approximateVariance opts))
                     else if length clean = 7
                       then (YYYY_MM, Month, months (approximateVariance opts))
                     else (YYYY_MM_DD, Day, days (approximateVariance opts)));
                  base = moment_utc clean fmt;
                  lo = (if approximate then moment_subtract variance unit base else base);
                  hi = (if approximate then moment_add variance unit base else base)
              in Inr \<lparr>cleanEdtf = clean,
                      detectedModifiers = detected,
                      format = fmt,
                      hasOpenEnd = test_end openEndRegex edtfPart,
                      hasOpenStart = test_start openStartRegex edtfPart,
                      isApproximate = approximate,
                      isUncertain = test_any uncertainRegex edtfPart,
                      maxDate = endOf unit hi,
                      minDate = startOf unit lo\<rparr>))"

text \<open>
  \<open>edtfArray.map(...)\<close>: every piece is parsed, in order, and the first piece that
  fails validation aborts the whole call. The first two results become the primary and
  the secondary part; there is always a first one.
\<close>

fun parseParts :: "IOptions \<Rightarrow> string list \<Rightarrow> error + IEdtfPartResult list" where
  "parseParts opts [] = Inr []"
| "parseParts opts (p # ps) =
     (case parsePart opts p of
        Inl e \<Rightarrow> Inl e
      | Inr r \<Rightarrow> (case parseParts opts ps of Inl e \<Rightarrow> Inl e | Inr rs \<Rightarrow> Inr (r # rs)))"

definition parseEdtf :: "IOptions \<Rightarrow> string \<Rightarrow> error + IParseEdtfResult" where
  "parseEdtf opts edtf =
     (case parseParts opts (split_slash edtf) of
        Inl e \<Rightarrow> Inl e
      | Inr [] \<Rightarrow> Inl TypeError
      | Inr (r # rs) \<Rightarrow>
          Inr \<lparr>primaryPart = r,
               secondaryPart = (case rs of [] \<Rightarrow> None | q # others \<Rightarrow> Some q)\<rparr>)"

section \<open>From a parse result to a date range\<close>

definition combine :: "IParseEdtfResult \<Rightarrow> IDate" where
  \<comment> \<open>the body of \<open>edtfToDate\<close> after parsing\<close>
  "combine parseResult =
     (if hasOpenStart (primaryPart parseResult)
      then \<lparr>min_moment = None, max_moment = Some (maxDate (primaryPart parseResult))\<rparr>
      else if hasOpenEnd (primaryPart parseResult)
      then \<lparr>min_moment = Some (minDate (primaryPart parseResult)), max_moment = None\<rparr>
      else \<lparr>min_moment = Some (minDate (primaryPart parseResult)),
            max_moment =
              (case secondaryPart parseResult of
                 Some s \<Rightarrow> Some (maxDate s)
               | None \<Rightarrow> Some (maxDate (primaryPart parseResult)))\<rparr>)"

definition edtfToDate :: "IOptions \<Rightarrow> string \<Rightarrow> error + IDate" where
  "edtfToDate opts edtf =
     (case parseEdtf opts edtf of Inl e \<Rightarrow> Inl e | Inr parseResult \<Rightarrow> Inr (combine parseResult))"

section \<open>From a parse result to text\<close>

text \<open>
  The merged locale table, reduced to the entries \<open>edtfToText\<close> reads. Formatting a
  date with the primary template is the library's work and stays a parameter
  \<open>formatDate\<close>: it stands for \<open>moment(cleanEdtf, format).format(dateFormats[0])\<close>.
\<close>

record LocaleData =
  approximate_words :: "string list"
  uncertain_words :: "string list"
  delimiter_words :: "string list"
  openStart_words :: "string list"
  openEnd_words :: "string list"

fun join_with :: "string \<Rightarrow> string list \<Rightarrow> string" where
  "join_with sep [] = []"
| "join_with sep [x] = x"
| "join_with sep (x # y # ys) = x @ sep @ join_with sep (y # ys)"

definition first_joined :: "string list \<Rightarrow> string" where
  \<comment> \<open>\<open>xs[0]\<close> as \<open>join\<close> prints it: a missing entry prints as nothing\<close>
  "first_joined xs = (case xs of [] \<Rightarrow> [] | x # rest \<Rightarrow> x)"

definition first_interpolated :: "string list \<Rightarrow> string" where
  \<comment> \<open>\<open>xs[0]\<close> inside a template literal: a missing entry prints as \<open>undefined\<close>\<close>
  "first_interpolated xs = (case xs of [] \<Rightarrow> ''undefined'' | x # rest \<Rightarrow> x)"

definition renderPart ::
  "(string \<Rightarrow> date_format \<Rightarrow> string) \<Rightarrow> LocaleData \<Rightarrow> IEdtfPartResult \<Rightarrow> string" where
  "renderPart formatDate localeData partResult =
     join_with '' ''
       (map keyword (detectedModifiers partResult)
        @ (if hasOpenEnd partResult then [first_joined (openEnd_words localeData)] else [])
        @ (if hasOpenStart partResult then [first_joined (openStart_words localeData)] else [])
        @ (if isUncertain partResult then [first_joined (uncertain_words localeData)] else [])
        @ (if isApproximate partResult then [first_joined (approximate_words localeData)] else [])
        @ [formatDate (cleanEdtf partResult) (format partResult)])"

definition renderParts ::
  "(string \<Rightarrow> date_format \<Rightarrow> string) \<Rightarrow> LocaleData \<Rightarrow> IParseEdtfResult \<Rightarrow> string" where
  \<comment> \<open>the body of \<open>edtfToText\<close> after parsing: a missing secondary part maps to
      \<open>null\<close>, and \<open>null\<close> and empty texts are filtered out before joining\<close>
  "renderParts formatDate localeData parseResult =
     join_with ('' '' @ first_interpolated (delimiter_words localeData) @ '' '')
       (map the
          (filter (\<lambda>part. part \<noteq> None \<and> part \<noteq> Some [])
             (map (map_option (renderPart formatDate localeData))
                [Some (primaryPart parseResult), secondaryPart parseResult])))"

definition edtfToText ::
  "(string \<Rightarrow> date_format \<Rightarrow> string) \<Rightarrow> LocaleData \<Rightarrow> IOptions \<Rightarrow> string \<Rightarrow> error + string"
where
  "edtfToText formatDate localeData opts edtf =
     (case parseEdtf opts edtf of
        Inl e \<Rightarrow> Inl e
      | Inr parseResult \<Rightarrow> Inr (renderParts formatDate localeData parseResult))"

text \<open>A small locale table and a formatter that prints the clean date, for concrete runs.\<close>

definition sampleLocale :: LocaleData where
  "sampleLocale =
     \<lparr>approximate_words = [''circa''], uncertain_words = [''maybe''],
      delimiter_words = [''to''], openStart_words = [''before''],
      openEnd_words = [''after'']\<rparr>"

definition plainDate :: "string \<Rightarrow> date_format \<Rightarrow> string" where
  "plainDate clean fmt = clean"

section \<open>Merging locale packs\<close>

text \<open>
  Locale packs are JSON documents. \<open>JUndefined\<close> does not occur in a pack; it is the
  value of a missing property and what the customizer returns when it leaves the merge
  to the library.
\<close>

datatype json =
    JUndefined
  | JNull
  | JBool bool
  | JNum int
  | JStr string
  | JArr "json list"
  | JObj "(string \<times> json) list"

definition at_index :: "json list \<Rightarrow> nat \<Rightarrow> json" where
  \<comment> \<open>\<open>xs[i]\<close>: reading past the end gives \<open>undefined\<close>\<close>
  "at_index xs i = (if i < length xs then xs ! i else JUndefined)"

fun array_items :: "json \<Rightarrow> json list option" where
  "array_items (JArr xs) = Some xs"
| "array_items other = None"

definition lodash_zip :: "json list \<Rightarrow> json list" where
  \<comment> \<open>\<open>zip(...groups)\<close>: arguments that are not arrays are ignored; the i-th result
      collects the i-th entry of every array, up to the longest array\<close>
  "lodash_zip groups =
     (let arrays = List.map_filter array_items groups;
          n = foldr (\<lambda>xs m. max (length xs) m) arrays 0
      in map (\<lambda>i. JArr (map (\<lambda>xs. at_index xs i) arrays)) [0 ..< n])"

fun lodash_flatten :: "json list \<Rightarrow> json list" where
  \<comment> \<open>\<open>flatten\<close>: one level\<close>
  "lodash_flatten [] = []"
| "lodash_flatten (JArr xs # rest) = xs @ lodash_flatten rest"
| "lodash_flatten (x # rest) = x # lodash_flatten rest"

fun falsy :: "json \<Rightarrow> bool" where
  "falsy JUndefined = True"
| "falsy JNull = True"
| "falsy (JBool b) = (\<not> b)"
| "falsy (JNum n) = (n = 0)"
| "falsy (JStr s) = (s = [])"
| "falsy other = False"

definition lodash_compact :: "json list \<Rightarrow> json list" where
  "lodash_compact xs = filter (\<lambda>x. \<not> falsy x) xs"

fun same_value :: "json \<Rightarrow> json \<Rightarrow> bool" where
  \<comment> \<open>the equality \<open>uniq\<close> uses: primitives by value; two arrays or objects coming
      out of different packs are different objects\<close>
  "same_value (JArr xs) y = False"
| "same_value (JObj kvs) y = False"
| "same_value x y = (x = y)"

fun uniq_from :: "json list \<Rightarrow> json list \<Rightarrow> json list" where
  "uniq_from seen [] = []"
| "uniq_from seen (x # xs) =
     (if list_ex (\<lambda>y. same_value y x) seen then uniq_from seen xs
      else x # uniq_from (seen @ [x]) xs)"

definition lodash_uniq :: "json list \<Rightarrow> json list" where
  \<comment> \<open>\<open>uniq\<close>: the first occurrence of every value, in order\<close>
  "lodash_uniq xs = uniq_from [] xs"

fun customizer :: "json \<Rightarrow> json \<Rightarrow> json" where
  "customizer (JArr objItems) srcValue =
     JArr (lodash_uniq (lodash_compact (lodash_flatten (lodash_zip [JArr objItems, srcValue]))))"
| "customizer (JStr objText) srcValue = JArr [JStr objText, srcValue]"
| "customizer objValue srcValue = JUndefined"

definition property :: "(string \<times> json) list \<Rightarrow> string \<Rightarrow> json" where
  "property object key = (case map_of object key of None \<Rightarrow> JUndefined | Some v \<Rightarrow> v)"

fun assign :: "(string \<times> json) list \<Rightarrow> string \<Rightarrow> json \<Rightarrow> (string \<times> json) list" where
  \<comment> \<open>\<open>object[key] = value\<close>: an existing key keeps its place, a new one goes last\<close>
  "assign [] key v = [(key, v)]"
| "assign ((k, w) # rest) key v =
     (if k = key then (k, v) # rest else (k, w) # assign rest key v)"

text \<open>
  \<open>mergeWith(object, source, customizer)\<close> on JSON values: for every key of the source
  the customizer is asked first; when it answers \<open>undefined\<close> the library merges
  objects key by key and otherwise takes the source's value.
\<close>

fun mergeValue :: "json \<Rightarrow> json \<Rightarrow> json"
  and mergeInto :: "(string \<times> json) list \<Rightarrow> (string \<times> json) list \<Rightarrow> (string \<times> json) list"
where
  "mergeValue objValue (JObj src) =
     (case customizer objValue (JObj src) of
        JUndefined \<Rightarrow>
          JObj (mergeInto (case objValue of JObj obj \<Rightarrow> obj | other \<Rightarrow> []) src)
      | decided \<Rightarrow> decided)"
| "mergeValue objValue JUndefined = customizer objValue JUndefined"
| "mergeValue objValue JNull =
     (case customizer objValue JNull of JUndefined \<Rightarrow> JNull | decided \<Rightarrow> decided)"
| "mergeValue objValue (JBool b) =
     (case customizer objValue (JBool b) of JUndefined \<Rightarrow> JBool b | decided \<Rightarrow> decided)"
| "mergeValue objValue (JNum n) =
     (case customizer objValue (JNum n) of JUndefined \<Rightarrow> JNum n | decided \<Rightarrow> decided)"
| "mergeValue objValue (JStr t) =
     (case customizer objValue (JStr t) of JUndefined \<Rightarrow> JStr t | decided \<Rightarrow> decided)"
| "mergeValue objValue (JArr xs) =
     (case customizer objValue (JArr xs) of JUndefined \<Rightarrow> JArr xs | decided \<Rightarrow> decided)"
| "mergeInto object [] = object"
| "mergeInto object ((key, srcValue) # rest) =
     mergeInto (assign object key (mergeValue (property object key) srcValue)) rest"

definition mergeLocales :: "(string \<times> json) list list \<Rightarrow> (string \<times> json) list" where
  \<comment> \<open>\<open>mergeWith({}, ...locales, customizer)\<close>\<close>
  "mergeLocales packs = foldl mergeInto [] packs"

text \<open>
  The merge rule in the words of its description, for comparison: the two lists one
  after the other, empty entries dropped, every entry kept where it is first seen.
\<close>

fun first_seen :: "'a list \<Rightarrow> 'a list" where
  "first_seen [] = []"
| "first_seen (x # xs) = x # first_seen (filter (\<lambda>y. y \<noteq> x) xs)"

definition concat_merge :: "string list \<Rightarrow> string list \<Rightarrow> string list" where
  "concat_merge xs ys = first_seen (filter (\<lambda>s. s \<noteq> []) (xs @ ys))"

text \<open>What the customizer computes instead: the two lists taken alternately.\<close>

fun interleave :: "'a list \<Rightarrow> 'a list \<Rightarrow> 'a list" where
  "interleave [] ys = ys"
| "interleave (x # xs) [] = x # xs"
| "interleave (x # xs) (y # ys) = x # y # interleave xs ys"

definition interleave_merge :: "string list \<Rightarrow> string list \<Rightarrow> string list" where
  "interleave_merge xs ys = first_seen (filter (\<lambda>s. s \<noteq> []) (interleave xs ys))"

section \<open>The matcher decides the language\<close>

lemma cat_nil_iff: "[] \<in> cat A B \<longleftrightarrow> [] \<in> A \<and> [] \<in> B"
  by (auto simp: cat_def)

lemma cat_cons_iff:
  "c # w \<in> cat A B \<longleftrightarrow>
     (\<exists>u v. w = u @ v \<and> c # u \<in> A \<and> v \<in> B) \<or> ([] \<in> A \<and> c # w \<in> B)"
proof
  assume "c # w \<in> cat A B"
  then obtain a b where ab: "c # w = a @ b" "a \<in> A" "b \<in> B"
    by (auto simp: cat_def)
  show "(\<exists>u v. w = u @ v \<and> c # u \<in> A \<and> v \<in> B) \<or> ([] \<in> A \<and> c # w \<in> B)"
  proof (cases a)
    case Nil
    with ab show ?thesis by simp
  next
    case (Cons x a')
    with ab have "w = a' @ b" "c # a' \<in> A" by simp_all
    with ab show ?thesis by blast
  qed
next
  assume "(\<exists>u v. w = u @ v \<and> c # u \<in> A \<and> v \<in> B) \<or> ([] \<in> A \<and> c # w \<in> B)"
  then show "c # w \<in> cat A B"
  proof
    assume "\<exists>u v. w = u @ v \<and> c # u \<in> A \<and> v \<in> B"
    then obtain u v where "w = u @ v" "c # u \<in> A" "v \<in> B" by blast
    then have "(c # u) @ v \<in> cat A B" unfolding cat_def by blast
    with \<open>w = u @ v\<close> show ?thesis by simp
  next
    assume "[] \<in> A \<and> c # w \<in> B"
    then have "[] @ (c # w) \<in> cat A B" unfolding cat_def by blast
    then show ?thesis by simp
  qed
qed

lemma rept_cons_iff:
  "c # w \<in> rept A \<longleftrightarrow> (\<exists>u v. w = u @ v \<and> c # u \<in> A \<and> v \<in> rept A)"
proof
  assume "c # w \<in> rept A"
  then show "\<exists>u v. w = u @ v \<and> c # u \<in> A \<and> v \<in> rept A"
  proof (induction "c # w" rule: rept.induct)
    case (rept_step u v)
    show ?case
    proof (cases u)
      case Nil
      with rept_step show ?thesis by simp
    next
      case (Cons x u')
      with rept_step(1,2,4) show ?thesis by auto
    qed
  qed
next
  assume "\<exists>u v. w = u @ v \<and> c # u \<in> A \<and> v \<in> rept A"
  then obtain u v where "w = u @ v" "c # u \<in> A" "v \<in> rept A" by blast
  then have "(c # u) @ v \<in> rept A" by (intro rept_step)
  with \<open>w = u @ v\<close> show "c # w \<in> rept A" by simp
qed

lemma lang_seq: "lang (seq r s) = cat (lang r) (lang s)"
  by (induction r s rule: seq.induct) (auto simp: cat_def)

lemma lang_alt: "lang (alt r s) = lang r \<union> lang s"
  by (induction r s rule: alt.induct) auto

lemma nullable_iff: "nullable r \<longleftrightarrow> [] \<in> lang r"
  by (induction r) (auto simp: cat_nil_iff intro: rept_nil)

lemma in_cat: "w \<in> cat A B \<longleftrightarrow> (\<exists>u v. w = u @ v \<and> u \<in> A \<and> v \<in> B)"
  by (auto simp: cat_def)

lemma deriv_iff: "w \<in> lang (deriv c r) \<longleftrightarrow> c # w \<in> lang r"
proof (induction r arbitrary: w)
  case (Seq r s)
  have left: "w \<in> cat (lang (deriv c r)) (lang s) \<longleftrightarrow>
      (\<exists>u v. w = u @ v \<and> c # u \<in> lang r \<and> v \<in> lang s)"
    by (simp add: in_cat Seq.IH(1))
  show ?case
  proof (cases "nullable r")
    case True
    then show ?thesis
      using left by (simp add: lang_seq lang_alt cat_cons_iff nullable_iff Seq.IH(2))
  next
    case False
    then show ?thesis
      using left by (simp add: lang_seq cat_cons_iff nullable_iff)
  qed
next
  case (Many r)
  have "w \<in> cat (lang (deriv c r)) (rept (lang r)) \<longleftrightarrow>
      (\<exists>u v. w = u @ v \<and> c # u \<in> lang r \<and> v \<in> rept (lang r))"
    by (simp add: in_cat Many.IH)
  then show ?case
    by (simp add: lang_seq rept_cons_iff)
qed (auto simp: lang_alt)

lemma matches_iff: "matches r w \<longleftrightarrow> w \<in> lang r"
  by (induction w arbitrary: r) (simp_all add: nullable_iff deriv_iff)

lemma test_whole_iff: "test_whole r s \<longleftrightarrow> s \<in> lang r"
  by (simp add: test_whole_def matches_iff)

lemma test_start_iff: "test_start r s \<longleftrightarrow> (\<exists>u v. s = u @ v \<and> u \<in> lang r)"
  by (auto simp: test_start_def list_ex_iff matches_iff prefix_def)

lemma test_end_iff: "test_end r s \<longleftrightarrow> (\<exists>u v. s = u @ v \<and> v \<in> lang r)"
proof -
  have "test_end r s \<longleftrightarrow> (\<exists>v. suffix v s \<and> v \<in> lang r)"
    by (auto simp: test_end_def list_ex_iff matches_iff)
  also have "\<dots> \<longleftrightarrow> (\<exists>u v. s = u @ v \<and> v \<in> lang r)"
    unfolding suffix_def by blast
  finally show ?thesis .
qed

lemma test_any_iff: "test_any r s \<longleftrightarrow> (\<exists>u v w. s = u @ v @ w \<and> v \<in> lang r)"
proof
  assume "test_any r s"
  then obtain t where "t \<in> set (suffixes s)" "test_start r t"
    unfolding test_any_def list_ex_iff by blast
  then obtain u v w where "s = u @ t" "t = v @ w" "v \<in> lang r"
    by (auto simp: suffix_def test_start_iff)
  then show "\<exists>u v w. s = u @ v @ w \<and> v \<in> lang r" by blast
next
  assume "\<exists>u v w. s = u @ v @ w \<and> v \<in> lang r"
  then obtain u v w where uvw: "s = u @ v @ w" "v \<in> lang r" by blast
  then have "v @ w \<in> set (suffixes s)" "test_start r (v @ w)"
    by (auto simp: suffix_def test_start_iff)
  then show "test_any r s"
    unfolding test_any_def list_ex_iff by blast
qed

lemmas regex_defs =
  edtfRegex_def opt_def spaces_def space_chars_def openStart_def openEnd_def edtfSection_def
  modifier_def date_def digit_def lit_def approximateRegex_def uncertainRegex_def
  openStartRegex_def openEndRegex_def

lemmas parse_defs =
  parseEdtf_def parsePart_def DEFAULT_OPTIONS_def validateEdtfPart_def test_whole_def
  test_any_def test_start_def test_end_def stripped_chars_def moment_utc_def match_digits_def
  match_dash_def parseYear_def is_digit_def toInt_def createUTCDate_def daysInMonth_def
  isLeapYear_def clip_def in_range_def timeValue_def dayFromYear_def daysBeforeMonth_def

section \<open>The combination rule of \<open>edtfToDate\<close>\<close>

text \<open>
  Claim C1. Whenever \<open>parseEdtf\<close> accepts a string, \<open>edtfToDate\<close> returns: no lower
  bound and the primary part's upper bound when the primary part has an open start;
  otherwise the primary part's lower bound and no upper bound when it has an open end;
  otherwise the primary part's lower bound and the upper bound of the secondary part if
  there is one, of the primary part if not. Changing the open flags of the secondary
  part changes nothing.
\<close>

theorem edtfToDate_combination_rule:
  assumes "parseEdtf opts edtf = Inr res"
  shows "edtfToDate opts edtf =
           Inr (if hasOpenStart (primaryPart res)
                then \<lparr>min_moment = None, max_moment = Some (maxDate (primaryPart res))\<rparr>
                else if hasOpenEnd (primaryPart res)
                then \<lparr>min_moment = Some (minDate (primaryPart res)), max_moment = None\<rparr>
                else \<lparr>min_moment = Some (minDate (primaryPart res)),
                      max_moment = Some (case secondaryPart res of
                                           Some s \<Rightarrow> maxDate s
                                         | None \<Rightarrow> maxDate (primaryPart res))\<rparr>)
         \<and> combine (res\<lparr>secondaryPart :=
                map_option (\<lambda>s. s\<lparr>hasOpenStart := a, hasOpenEnd := b\<rparr>) (secondaryPart res)\<rparr>)
             = combine res"
  using assms by (simp add: edtfToDate_def combine_def split: option.splits)

theorem edtfToDate_combination_rule_witness:
  "edtfToDate DEFAULT_OPTIONS ''1930/1935'' =
     Inr \<lparr>min_moment = Some (Moment \<lparr>year = 1930, month = 1, day = 1,
                                      hour = 0, minute = 0, second = 0, millisecond = 0\<rparr>),
          max_moment = Some (Moment \<lparr>year = 1935, month = 12, day = 31,
                                      hour = 23, minute = 59, second = 59, millisecond = 999\<rparr>)\<rparr>"
proof -
  have parsed: "parseEdtf DEFAULT_OPTIONS ''1930/1935'' =
    Inr \<lparr>primaryPart =
           \<lparr>cleanEdtf = ''1930'', detectedModifiers = [], format = YYYY,
            hasOpenEnd = False, hasOpenStart = False,
            isApproximate = False, isUncertain = False,
            maxDate = Moment \<lparr>year = 1930, month = 12, day = 31,
                              hour = 23, minute = 59, second = 59, millisecond = 999\<rparr>,
            minDate = Moment \<lparr>year = 1930, month = 1, day = 1,
                              hour = 0, minute = 0, second = 0, millisecond = 0\<rparr>\<rparr>,
         secondaryPart = Some
           \<lparr>cleanEdtf = ''1935'', detectedModifiers = [], format = YYYY,
            hasOpenEnd = False, hasOpenStart = False,
            isApproximate = False, isUncertain = False,
            maxDate = Moment \<lparr>year = 1935, month = 12, day = 31,
                              hour = 23, minute = 59, second = 59, millisecond = 999\<rparr>,
            minDate = Moment \<lparr>year = 1935, month = 1, day = 1,
                              hour = 0, minute = 0, second = 0, millisecond = 0\<rparr>\<rparr>\<rparr>"
    by (simp add: parse_defs regex_defs)
  show ?thesis
    using edtfToDate_combination_rule [OF parsed] by simp
qed

section \<open>What the validator accepts\<close>

text \<open>
  Claim C4. \<open>validateEdtf\<close> is meant to reject a day above 31, a month above 12 and
  a second \<open>/\<close>. It only ever looks at the first two pieces of the split, so a string
  with two separators passes whatever its third piece holds, although \<open>parseEdtf\<close>,
  which validates every piece, rejects the same string.
\<close>

theorem validateEdtf_skips_third_piece:
  "validateEdtf ''1930/1931/1932'' = Inr ()
   \<and> validateEdtf ''1930/1931/1932-13-45'' = Inr ()
   \<and> parseEdtf DEFAULT_OPTIONS ''1930/1931/1932-13-45'' = Inl (InvalidEdtf ''1932-13-45'')"
  by (simp add: validateEdtf_def parse_defs regex_defs)

text \<open>
  Claim C5. Every date \<open>YYYY-MM-DD\<close> with a month from 01 to 12 and a day from 01 to
  31 should pass the validator. The day pattern \<open>[0-2][1-9]|3[0-1]\<close> has no
  alternative for a day ending in 0 below 30: the 10th and the 20th are rejected.
\<close>

theorem validateEdtfPart_rejects_day_10_and_20:
  "validateEdtfPart ''1930-05-10'' = Inl (InvalidEdtf ''1930-05-10'')
   \<and> validateEdtfPart ''1930-05-20'' = Inl (InvalidEdtf ''1930-05-20'')
   \<and> validateEdtfPart ''1930-05-09'' = Inr ()
   \<and> validateEdtfPart ''1930-05-30'' = Inr ()"
  by (simp add: validateEdtfPart_def test_whole_def regex_defs)

section \<open>The built-in modifier flags\<close>

lemma rept_alphabet: "w \<in> rept A \<Longrightarrow> (\<And>u. u \<in> A \<Longrightarrow> set u \<subseteq> S) \<Longrightarrow> set w \<subseteq> S"
  by (induction rule: rept.induct) auto

lemma lang_alphabet: "w \<in> lang r \<Longrightarrow> set w \<subseteq> alphabet r"
proof (induction r arbitrary: w)
  case (Seq r s)
  from Seq.prems obtain u v where "w = u @ v" "u \<in> lang r" "v \<in> lang s"
    by (auto simp: in_cat)
  with Seq.IH [of u] Seq.IH(2) [of v] show ?case by auto
next
  case (Many r)
  then show ?case using rept_alphabet [of w "lang r" "alphabet r"] by auto
qed auto

lemma rept_singletons: "w \<in> rept {[c] | c. c \<in> S} \<longleftrightarrow> set w \<subseteq> S"
proof
  assume "w \<in> rept {[c] | c. c \<in> S}"
  then show "set w \<subseteq> S" by (induction rule: rept.induct) auto
next
  assume "set w \<subseteq> S"
  then show "w \<in> rept {[c] | c. c \<in> S}"
  proof (induction w)
    case Nil
    show ?case by (rule rept_nil)
  next
    case (Cons c w)
    then have "[c] \<in> {[c] | c. c \<in> S}" "w \<in> rept {[c] | c. c \<in> S}" by auto
    then have "[c] @ w \<in> rept {[c] | c. c \<in> S}" by (rule rept_step)
    then show ?case by simp
  qed
qed

lemma lang_spaces: "w \<in> lang spaces \<longleftrightarrow> set w \<subseteq> set space_chars"
  by (simp add: spaces_def rept_singletons)

lemma lang_lit: "lang (lit s) = {s}"
  unfolding lit_def by (induction s) (auto simp: cat_def)

lemma test_any_class: "test_any (Cls cs) s \<longleftrightarrow> (\<exists>c \<in> set cs. c \<in> set s)"
proof
  assume "test_any (Cls cs) s"
  then obtain u v w where "s = u @ v @ w" "v \<in> lang (Cls cs)"
    unfolding test_any_iff by blast
  then show "\<exists>c \<in> set cs. c \<in> set s" by auto
next
  assume "\<exists>c \<in> set cs. c \<in> set s"
  then obtain c where c: "c \<in> set cs" "c \<in> set s" by blast
  then obtain u w where "s = u @ c # w" by (meson split_list)
  then have "s = u @ [c] @ w" "[c] \<in> lang (Cls cs)" using c(1) by auto
  then show "test_any (Cls cs) s" unfolding test_any_iff by blast
qed

lemma openStartRegex_iff:
  "test_start openStartRegex s \<longleftrightarrow>
     (\<exists>ws rest. set ws \<subseteq> set space_chars \<and> s = ''['' @ ws @ ''..'' @ rest)"
proof -
  have "u \<in> lang openStartRegex \<longleftrightarrow> (\<exists>ws. set ws \<subseteq> set space_chars \<and> u = ''['' @ ws @ ''..'')"
    for u
    unfolding openStartRegex_def by (auto simp: in_cat lang_spaces lang_lit)
  then show ?thesis
    unfolding test_start_iff by (metis append.assoc)
qed

lemma openEndRegex_iff:
  "test_end openEndRegex s \<longleftrightarrow>
     (\<exists>front ws. set ws \<subseteq> set space_chars \<and> s = front @ ''..'' @ ws @ '']'')"
proof -
  have "v \<in> lang openEndRegex \<longleftrightarrow> (\<exists>ws. set ws \<subseteq> set space_chars \<and> v = ''..'' @ ws @ '']'')"
    for v
    unfolding openEndRegex_def by (auto simp: in_cat lang_spaces lang_lit)
  then show ?thesis
    unfolding test_end_iff by blast
qed

lemma parsePart_flags:
  assumes "parsePart opts piece = Inr r"
  defines "stripped \<equiv> snd (removeCustomModifiers (customModifiers opts) ([], piece))"
  shows "isApproximate r = test_any approximateRegex stripped"
    and "isUncertain r = test_any uncertainRegex stripped"
    and "hasOpenStart r = test_start openStartRegex stripped"
    and "hasOpenEnd r = test_end openEndRegex stripped"
    and "detectedModifiers r = fst (removeCustomModifiers (customModifiers opts) ([], piece))"
    and "validateEdtfPart stripped = Inr ()"
  using assms(1) unfolding stripped_def
  by (auto simp: parsePart_def Let_def split: prod.splits sum.splits)


text \<open>
  Claim C9. On the segment as the custom modifiers left it, \<open>isApproximate\<close> holds
  exactly when the segment contains \<open>~\<close> or \<open>%\<close>, and \<open>isUncertain\<close> exactly when it
  contains \<open>?\<close> or \<open>%\<close>. A \<open>%\<close> therefore sets both, and each flag can be set
  without the other.
\<close>

theorem modifier_flags:
  assumes "parsePart opts piece = Inr r"
  shows "(isApproximate r \<longleftrightarrow>
            CHR ''~'' \<in> set (snd (removeCustomModifiers (customModifiers opts) ([], piece)))
            \<or> CHR ''%'' \<in> set (snd (removeCustomModifiers (customModifiers opts) ([], piece))))
         \<and> (isUncertain r \<longleftrightarrow>
            CHR ''?'' \<in> set (snd (removeCustomModifiers (customModifiers opts) ([], piece)))
            \<or> CHR ''%'' \<in> set (snd (removeCustomModifiers (customModifiers opts) ([], piece))))"
  using parsePart_flags(1,2) [OF assms]
  by (simp add: test_any_class approximateRegex_def uncertainRegex_def)

theorem modifier_flags_witness:
  "(CHR ''~'' \<in> set ''%1930'' \<or> CHR ''%'' \<in> set ''%1930'')
   \<and> map_sum id isApproximate (parsePart DEFAULT_OPTIONS ''%1930'') = Inr True
   \<and> map_sum id isUncertain (parsePart DEFAULT_OPTIONS ''%1930'') = Inr True
   \<and> map_sum id isApproximate (parsePart DEFAULT_OPTIONS ''~1930'') = Inr True
   \<and> map_sum id isUncertain (parsePart DEFAULT_OPTIONS ''~1930'') = Inr False
   \<and> map_sum id isApproximate (parsePart DEFAULT_OPTIONS ''1930?'') = Inr False
   \<and> map_sum id isUncertain (parsePart DEFAULT_OPTIONS ''1930?'') = Inr True"
proof -
  have parsed: "parsePart DEFAULT_OPTIONS ''%1930'' =
    Inr \<lparr>cleanEdtf = ''1930'', detectedModifiers = [], format = YYYY,
         hasOpenEnd = False, hasOpenStart = False,
         isApproximate = True, isUncertain = True,
         maxDate = Moment \<lparr>year = 1933, month = 12, day = 31,
                           hour = 23, minute = 59, second = 59, millisecond = 999\<rparr>,
         minDate = Moment \<lparr>year = 1927, month = 1, day = 1,
                           hour = 0, minute = 0, second = 0, millisecond = 0\<rparr>\<rparr>"
    by (simp add: parse_defs regex_defs moment_subtract_def add_months_def)
  have both: "CHR ''~'' \<in> set ''%1930'' \<or> CHR ''%'' \<in> set ''%1930''"
    using modifier_flags [OF parsed] by (simp add: DEFAULT_OPTIONS_def)
  have others:
    "map_sum id isApproximate (parsePart DEFAULT_OPTIONS ''~1930'') = Inr True"
    "map_sum id isUncertain (parsePart DEFAULT_OPTIONS ''~1930'') = Inr False"
    "map_sum id isApproximate (parsePart DEFAULT_OPTIONS ''1930?'') = Inr False"
    "map_sum id isUncertain (parsePart DEFAULT_OPTIONS ''1930?'') = Inr True"
    by (simp_all add: parse_defs regex_defs moment_subtract_def add_months_def)
  show ?thesis
    using both others by (simp add: parsed)
qed


text \<open>
  Claim C8, as amended. On the segment as the custom modifiers left it, \<open>hasOpenStart\<close>
  holds exactly when the segment begins with \<open>[\<close>, optional white space and \<open>..\<close>, and
  \<open>hasOpenEnd\<close> exactly when it ends with \<open>..\<close>, optional white space and \<open>]\<close>.
\<close>

theorem open_flags:
  assumes "parsePart opts piece = Inr r"
  shows "(hasOpenStart r \<longleftrightarrow>
            (\<exists>ws rest. set ws \<subseteq> set space_chars
               \<and> snd (removeCustomModifiers (customModifiers opts) ([], piece))
                   = ''['' @ ws @ ''..'' @ rest))
         \<and> (hasOpenEnd r \<longleftrightarrow>
            (\<exists>front ws. set ws \<subseteq> set space_chars
               \<and> snd (removeCustomModifiers (customModifiers opts) ([], piece))
                   = front @ ''..'' @ ws @ '']''))"
  using parsePart_flags(3,4) [OF assms]
  by (simp only: openStartRegex_iff openEndRegex_iff)

theorem open_flags_witness:
  "(\<exists>ws rest. set ws \<subseteq> set space_chars \<and> ''[..1930..]'' = ''['' @ ws @ ''..'' @ rest)
   \<and> (\<exists>front ws. set ws \<subseteq> set space_chars \<and> ''[..1930..]'' = front @ ''..'' @ ws @ '']'')"
proof -
  have parsed: "parsePart DEFAULT_OPTIONS ''[..1930..]'' =
    Inr \<lparr>cleanEdtf = ''1930'', detectedModifiers = [], format = YYYY,
         hasOpenEnd = True, hasOpenStart = True,
         isApproximate = False, isUncertain = False,
         maxDate = Moment \<lparr>year = 1930, month = 12, day = 31,
                           hour = 23, minute = 59, second = 59, millisecond = 999\<rparr>,
         minDate = Moment \<lparr>year = 1930, month = 1, day = 1,
                           hour = 0, minute = 0, second = 0, millisecond = 0\<rparr>\<rparr>"
    by (simp add: parse_defs regex_defs)
  have stripped:
    "snd (removeCustomModifiers (customModifiers DEFAULT_OPTIONS) ([], ''[..1930..]''))
       = ''[..1930..]''"
    by (simp add: DEFAULT_OPTIONS_def)
  show ?thesis
    using open_flags [OF parsed] unfolding stripped by simp
qed

text \<open>
  The claim as stated lets a leading \<open>[\<close> alone set \<open>hasOpenStart\<close> and a trailing
  \<open>..\<close> alone set \<open>hasOpenEnd\<close>. The validator accepts a bracket without dots, but
  the flag patterns ask for the dots; and a segment ending in dots without the bracket
  is not parsed at all.
\<close>

theorem leading_bracket_counterexample:
  "map_sum id hasOpenStart (parsePart DEFAULT_OPTIONS ''[1930'') = Inr False
   \<and> map_sum id hasOpenStart (parsePart DEFAULT_OPTIONS ''[1930]'') = Inr False
   \<and> parsePart DEFAULT_OPTIONS ''1930..'' = Inl (InvalidEdtf ''1930..'')"
  by (simp add: parse_defs regex_defs)

section \<open>Failing segments\<close>

lemma parsePart_error: "parsePart opts p = Inl e \<Longrightarrow> \<exists>t. e = InvalidEdtf t"
  by (auto simp: parsePart_def validateEdtfPart_def Let_def split: prod.splits sum.splits if_splits)

lemma parsePart_fails_iff:
  "parsePart opts p = Inl e \<longleftrightarrow>
     validateEdtfPart (snd (removeCustomModifiers (customModifiers opts) ([], p))) = Inl e"
  by (auto simp: parsePart_def Let_def split: prod.splits sum.splits)

lemma parseParts_length: "parseParts opts ps = Inr rs \<Longrightarrow> length rs = length ps"
  by (induction ps arbitrary: rs) (auto split: sum.splits)

lemma parseParts_error: "parseParts opts ps = Inl e \<Longrightarrow> \<exists>t. e = InvalidEdtf t"
  by (induction ps) (auto split: sum.splits dest: parsePart_error)

lemma parseParts_fails:
  "p \<in> set ps \<Longrightarrow> parsePart opts p = Inl e \<Longrightarrow> \<exists>e'. parseParts opts ps = Inl e'"
  by (induction ps) (auto split: sum.splits)

lemma split_slash_nonempty: "split_slash s \<noteq> []"
  by (induction s) (auto split: list.splits)

lemma parseEdtf_fails_iff:
  "parseEdtf opts edtf = Inl e \<longleftrightarrow> parseParts opts (split_slash edtf) = Inl e"
proof (cases "parseParts opts (split_slash edtf)")
  case (Inl e')
  then show ?thesis by (simp add: parseEdtf_def)
next
  case (Inr rs)
  then have "rs \<noteq> []"
    using parseParts_length [of opts "split_slash edtf" rs] split_slash_nonempty [of edtf]
    by auto
  then show ?thesis
    using Inr by (cases rs) (simp_all add: parseEdtf_def)
qed

lemma parseEdtf_error: "parseEdtf opts edtf = Inl e \<Longrightarrow> \<exists>t. e = InvalidEdtf t"
  by (simp add: parseEdtf_fails_iff parseParts_error)

lemma validateEdtf_error: "validateEdtf edtf = Inl e \<Longrightarrow> \<exists>t. e = InvalidEdtf t"
  using split_slash_nonempty [of edtf]
  by (auto simp: validateEdtf_def validateEdtfPart_def split: list.splits sum.splits if_splits)

lemma parseEdtf_primary:
  assumes "parseEdtf opts edtf = Inr res"
  shows "\<exists>rs. parseParts opts (split_slash edtf) = Inr (primaryPart res # rs)
               \<and> secondaryPart res = (case rs of [] \<Rightarrow> None | q # others \<Rightarrow> Some q)"
  using assms
  by (auto simp: parseEdtf_def split: sum.splits list.splits)


lemma parsePart_valid:
  assumes "validateEdtfPart (snd (removeCustomModifiers (customModifiers opts) ([], piece))) = Inr ()"
  shows "\<exists>r. parsePart opts piece = Inr r"
  using assms by (auto simp: parsePart_def Let_def split: prod.splits if_splits)

lemma parseParts_first_failure:
  assumes "\<forall>q \<in> set good. \<exists>r. parsePart opts q = Inr r" and "parsePart opts p = Inl e"
  shows "parseParts opts (good @ p # rest) = Inl e"
  using assms by (induction good) (auto split: sum.splits)

lemma parsePart_error_text:
  assumes "parsePart opts p = Inl e"
  shows "e = InvalidEdtf (snd (removeCustomModifiers (customModifiers opts) ([], p)))"
  using assms
  by (auto simp: parsePart_fails_iff validateEdtfPart_def split: if_splits)


text \<open>
  Claim C7, as amended. When a segment of the input fails validation, \<open>edtfToText\<close>
  aborts with \<open>InvalidEdtf\<close> and renders nothing. The error is the one of the first
  segment that fails and carries that segment's text as the custom modifiers left it.
\<close>

theorem edtfToText_invalid_segment:
  "((\<exists>p \<in> set (split_slash edtf). \<exists>e. parsePart opts p = Inl e) \<longrightarrow>
      (\<exists>t. edtfToText formatDate localeData opts edtf = Inl (InvalidEdtf t)))
   \<and> (\<forall>good p rest e.
         split_slash edtf = good @ p # rest
         \<and> (\<forall>q \<in> set good. \<exists>r. parsePart opts q = Inr r)
         \<and> parsePart opts p = Inl e \<longrightarrow>
         edtfToText formatDate localeData opts edtf
           = Inl (InvalidEdtf (snd (removeCustomModifiers (customModifiers opts) ([], p)))))"
proof (intro conjI impI allI)
  assume "\<exists>p \<in> set (split_slash edtf). \<exists>e. parsePart opts p = Inl e"
  then obtain e' where "parseParts opts (split_slash edtf) = Inl e'"
    using parseParts_fails by blast
  moreover from this obtain t where "e' = InvalidEdtf t"
    using parseParts_error by blast
  ultimately have "parseEdtf opts edtf = Inl (InvalidEdtf t)"
    by (simp add: parseEdtf_fails_iff)
  then show "\<exists>t. edtfToText formatDate localeData opts edtf = Inl (InvalidEdtf t)"
    by (simp add: edtfToText_def)
next
  fix good p rest e
  assume a: "split_slash edtf = good @ p # rest
         \<and> (\<forall>q \<in> set good. \<exists>r. parsePart opts q = Inr r)
         \<and> parsePart opts p = Inl e"
  then have "parseParts opts (split_slash edtf) = Inl e"
    using parseParts_first_failure [of good opts p e rest] by simp
  then have "parseEdtf opts edtf = Inl e"
    by (simp add: parseEdtf_fails_iff)
  moreover have "e = InvalidEdtf (snd (removeCustomModifiers (customModifiers opts) ([], p)))"
    using a parsePart_error_text by blast
  ultimately show "edtfToText formatDate localeData opts edtf
           = Inl (InvalidEdtf (snd (removeCustomModifiers (customModifiers opts) ([], p))))"
    by (simp add: edtfToText_def)
qed

theorem edtfToText_invalid_segment_witness:
  "edtfToText plainDate sampleLocale DEFAULT_OPTIONS ''~1930/abc'' = Inl (InvalidEdtf ''abc'')
   \<and> edtfToText plainDate sampleLocale DEFAULT_OPTIONS ''abc/~1930'' = Inl (InvalidEdtf ''abc'')"
proof -
  have bad: "parsePart DEFAULT_OPTIONS ''abc'' = Inl (InvalidEdtf ''abc'')"
    by (simp add: parse_defs regex_defs)
  have good: "\<forall>q \<in> set [''~1930'']. \<exists>r. parsePart DEFAULT_OPTIONS q = Inr r"
    by (simp add: parsePart_valid DEFAULT_OPTIONS_def validateEdtfPart_def test_whole_def
          regex_defs)
  have stripped: "snd (removeCustomModifiers (customModifiers DEFAULT_OPTIONS) ([], ''abc''))
      = ''abc''"
    by (simp add: DEFAULT_OPTIONS_def)
  note abort = edtfToText_invalid_segment [THEN conjunct2, rule_format]
  have "edtfToText plainDate sampleLocale DEFAULT_OPTIONS ''~1930/abc''
      = Inl (InvalidEdtf (snd (removeCustomModifiers (customModifiers DEFAULT_OPTIONS)
                                 ([], ''abc''))))"
    by (rule abort [where good = "[''~1930'']" and rest = "[]" and e = "InvalidEdtf ''abc''"])
       (use good bad in simp)
  moreover
  have "edtfToText plainDate sampleLocale DEFAULT_OPTIONS ''abc/~1930''
      = Inl (InvalidEdtf (snd (removeCustomModifiers (customModifiers DEFAULT_OPTIONS)
                                 ([], ''abc''))))"
    by (rule abort [where good = "[]" and rest = "[''~1930'']" and e = "InvalidEdtf ''abc''"])
       (use bad in simp)
  ultimately show ?thesis
    by (simp only: stripped)
qed

text \<open>
  The claim as stated has \<open>edtfToText\<close> drop the failing segment and render the other
  one. The call parses first and nothing catches the error, whichever side fails.
\<close>

theorem edtfToText_throws_counterexample:
  "edtfToText plainDate sampleLocale DEFAULT_OPTIONS ''1930/abc'' = Inl (InvalidEdtf ''abc'')
   \<and> edtfToText plainDate sampleLocale DEFAULT_OPTIONS ''abc/1930'' = Inl (InvalidEdtf ''abc'')"
  by (simp add: edtfToText_def parse_defs regex_defs)

section \<open>A trailing separator\<close>

lemma split_slash_piece:
  "CHR ''/'' \<notin> set a \<Longrightarrow> split_slash (a @ CHR ''/'' # t) = a # split_slash t"
  by (induction a) auto

lemma split_slash_single: "CHR ''/'' \<notin> set a \<Longrightarrow> split_slash a = [a]"
  by (induction a) auto

lemma removeCustomModifiers_empty:
  "\<forall>m \<in> set ms. \<not> modifierRegex m [] \<Longrightarrow> removeCustomModifiers ms (d, []) = (d, [])"
  by (induction ms) auto

lemma validateEdtfPart_empty: "validateEdtfPart [] = Inl (InvalidEdtf [])"
  by (simp add: validateEdtfPart_def test_whole_def regex_defs)

lemma validateEdtfPart_iff: "validateEdtfPart s = Inr () \<longleftrightarrow> s \<in> lang edtfRegex"
  by (simp add: validateEdtfPart_def test_whole_iff)

lemma no_slash:
  "w \<in> lang spaces \<Longrightarrow> CHR ''/'' \<notin> set w"
  "w \<in> lang (opt openStart) \<Longrightarrow> CHR ''/'' \<notin> set w"
  "w \<in> lang edtfSection \<Longrightarrow> CHR ''/'' \<notin> set w"
  "w \<in> lang (opt openEnd) \<Longrightarrow> CHR ''/'' \<notin> set w"
proof -
  have "CHR ''/'' \<notin> alphabet spaces" "CHR ''/'' \<notin> alphabet (opt openStart)"
    "CHR ''/'' \<notin> alphabet edtfSection" "CHR ''/'' \<notin> alphabet (opt openEnd)"
    by (simp_all add: regex_defs)
  then show
    "w \<in> lang spaces \<Longrightarrow> CHR ''/'' \<notin> set w"
    "w \<in> lang (opt openStart) \<Longrightarrow> CHR ''/'' \<notin> set w"
    "w \<in> lang edtfSection \<Longrightarrow> CHR ''/'' \<notin> set w"
    "w \<in> lang (opt openEnd) \<Longrightarrow> CHR ''/'' \<notin> set w"
    using lang_alphabet by blast+
qed

lemma cat_intro: "u \<in> A \<Longrightarrow> v \<in> B \<Longrightarrow> u @ v \<in> cat A B"
  by (auto simp: cat_def)

lemma edtfRegex_intro:
  assumes "w1 \<in> lang spaces" "o1 \<in> lang (opt openStart)" "w2 \<in> lang spaces"
    "c \<in> lang edtfSection" "w3 \<in> lang spaces"
    "t \<in> lang (opt (Alt (Seq (Cls ''/'') (Seq spaces edtfSection)) (opt openEnd)))"
    "w4 \<in> lang spaces"
  shows "w1 @ o1 @ w2 @ c @ w3 @ t @ w4 \<in> lang edtfRegex"
  unfolding edtfRegex_def lang.simps(4) by (intro cat_intro assms)

lemma nil_in_spaces: "[] \<in> lang spaces"
  by (simp add: lang_spaces)

lemma nil_in_opt: "[] \<in> lang (opt r)"
  by (simp add: opt_def)

lemma edtfSection_nonempty: "c \<in> lang edtfSection \<Longrightarrow> c \<noteq> []"
proof
  assume "c \<in> lang edtfSection" "c = []"
  then have "matches edtfSection []" by (simp add: matches_iff)
  then show False by (simp add: regex_defs)
qed

lemma valid_pieces:
  assumes "s \<in> lang edtfRegex"
  shows "CHR ''/'' \<notin> set s
         \<or> (\<exists>a b. s = a @ CHR ''/'' # b \<and> CHR ''/'' \<notin> set a \<and> CHR ''/'' \<notin> set b
                \<and> a \<in> lang edtfRegex \<and> b \<in> lang edtfRegex \<and> b \<noteq> [])"
proof -
  from assms obtain w1 o1 w2 c w3 t w4 where
    s: "s = w1 @ o1 @ w2 @ c @ w3 @ t @ w4"
    and parts: "w1 \<in> lang spaces" "o1 \<in> lang (opt openStart)" "w2 \<in> lang spaces"
      "c \<in> lang edtfSection" "w3 \<in> lang spaces" "w4 \<in> lang spaces"
    and t: "t \<in> lang (opt (Alt (Seq (Cls ''/'') (Seq spaces edtfSection)) (opt openEnd)))"
    unfolding edtfRegex_def by (auto simp: in_cat)
  from t consider
      (interval) w5 c2 where "t = CHR ''/'' # w5 @ c2" "w5 \<in> lang spaces" "c2 \<in> lang edtfSection"
    | (closing) "t \<in> lang (opt openEnd)"
    | (nothing) "t = []"
    by (auto simp: opt_def [of "Alt (Seq (Cls ''/'') (Seq spaces edtfSection)) (opt openEnd)"] in_cat)
  then show ?thesis
  proof cases
    case interval
    let ?a = "w1 @ o1 @ w2 @ c @ w3"
    let ?b = "w5 @ c2 @ w4"
    have "s = ?a @ CHR ''/'' # ?b"
      using s interval(1) by simp
    moreover have "CHR ''/'' \<notin> set ?a"
      using parts no_slash by simp
    moreover have "CHR ''/'' \<notin> set ?b"
      using parts interval no_slash by simp
    moreover have "?a \<in> lang edtfRegex"
      using edtfRegex_intro [OF parts(1-5) nil_in_opt nil_in_spaces] by simp
    moreover have "?b \<in> lang edtfRegex"
      using edtfRegex_intro [OF nil_in_spaces nil_in_opt interval(2,3) parts(6) nil_in_opt
          nil_in_spaces]
      by simp
    moreover have "?b \<noteq> []"
      using edtfSection_nonempty [OF interval(3)] by simp
    ultimately show ?thesis by blast
  next
    case closing
    then show ?thesis using s parts no_slash by simp
  next
    case nothing
    then show ?thesis using s parts no_slash by simp
  qed
qed

lemma pieces_before_trailing_separator:
  assumes "s \<in> lang edtfRegex"
  shows "validateEdtf (s @ ''/'') = Inr ()
         \<and> (\<exists>ps. split_slash (s @ ''/'') = ps @ [[]] \<and> (\<forall>p \<in> set ps. p \<in> lang edtfRegex))"
proof -
  from valid_pieces [OF assms] consider
      (single) "CHR ''/'' \<notin> set s"
    | (double) a b where "s = a @ CHR ''/'' # b" "CHR ''/'' \<notin> set a" "CHR ''/'' \<notin> set b"
        "a \<in> lang edtfRegex" "b \<in> lang edtfRegex" "b \<noteq> []"
    by blast
  then show ?thesis
  proof cases
    case single
    then have pieces: "split_slash (s @ ''/'') = [s] @ [[]]"
      by (simp add: split_slash_piece)
    then have "validateEdtf (s @ ''/'') = Inr ()"
      using assms by (simp add: validateEdtf_def validateEdtfPart_def test_whole_iff)
    moreover have "\<forall>p \<in> set [s]. p \<in> lang edtfRegex"
      using assms by simp
    ultimately show ?thesis using pieces by blast
  next
    case double
    have "split_slash (s @ ''/'') = split_slash (a @ CHR ''/'' # (b @ ''/''))"
      using double(1) by simp
    also have "\<dots> = a # split_slash (b @ ''/'')"
      using double(2) by (rule split_slash_piece)
    also have "\<dots> = [a, b] @ [[]]"
      using double(3) by (simp add: split_slash_piece)
    finally have pieces: "split_slash (s @ ''/'') = [a, b] @ [[]]" .
    then have "validateEdtf (s @ ''/'') = Inr ()"
      using double(4-6) by (simp add: validateEdtf_def validateEdtfPart_def test_whole_iff)
    moreover have "\<forall>p \<in> set [a, b]. p \<in> lang edtfRegex"
      using double(4,5) by simp
    ultimately show ?thesis using pieces by blast
  qed
qed

lemma parseParts_stops_at_last:
  assumes "\<forall>p \<in> set ps. \<exists>r. parsePart opts p = Inr r" and "parsePart opts q = Inl e"
  shows "parseParts opts (ps @ [q]) = Inl e"
  using assms by (induction ps) (auto split: sum.splits)

lemma parsePart_plain:
  assumes "customModifiers opts = []"
  shows "p \<in> lang edtfRegex \<Longrightarrow> \<exists>r. parsePart opts p = Inr r"
  using assms
  by (simp add: parsePart_def validateEdtfPart_def test_whole_iff Let_def)


text \<open>
  Claim C10. For a string \<open>s\<close> that the validator accepts as a segment, \<open>validateEdtf\<close>
  accepts \<open>s/\<close>, because it skips the empty second piece, while \<open>parseEdtf\<close>, and
  with it \<open>edtfToDate\<close> and \<open>edtfToText\<close>, throws \<open>InvalidEdtf\<close>: it validates the
  empty piece too. Without custom modifiers the error carries the empty piece. (A custom
  modifier whose pattern matches the empty string could rewrite the empty piece before
  validation; the statement leaves such modifiers out.)
\<close>

theorem trailing_slash:
  assumes "validateEdtfPart s = Inr ()"
    and "\<forall>m \<in> set (customModifiers opts). \<not> modifierRegex m []"
  shows "validateEdtf (s @ ''/'') = Inr ()
         \<and> (\<exists>t. parseEdtf opts (s @ ''/'') = Inl (InvalidEdtf t))
         \<and> (\<exists>t. edtfToDate opts (s @ ''/'') = Inl (InvalidEdtf t))
         \<and> (\<exists>t. edtfToText formatDate localeData opts (s @ ''/'') = Inl (InvalidEdtf t))
         \<and> (customModifiers opts = [] \<longrightarrow>
               parseEdtf opts (s @ ''/'') = Inl (InvalidEdtf []))"
proof -
  from assms(1) have valid: "s \<in> lang edtfRegex"
    by (simp add: validateEdtfPart_iff)
  from pieces_before_trailing_separator [OF valid] obtain ps where
    accepted: "validateEdtf (s @ ''/'') = Inr ()"
    and pieces: "split_slash (s @ ''/'') = ps @ [[]]"
    and good: "\<forall>p \<in> set ps. p \<in> lang edtfRegex"
    by blast
  have empty: "parsePart opts [] = Inl (InvalidEdtf [])"
    using assms(2)
    by (simp add: parsePart_fails_iff removeCustomModifiers_empty validateEdtfPart_empty)
  have "[] \<in> set (split_slash (s @ ''/''))"
    using pieces by simp
  then obtain e where "parseParts opts (split_slash (s @ ''/'')) = Inl e"
    using parseParts_fails empty by blast
  moreover from this obtain t where "e = InvalidEdtf t"
    using parseParts_error by blast
  ultimately have thrown: "parseEdtf opts (s @ ''/'') = Inl (InvalidEdtf t)"
    by (simp add: parseEdtf_fails_iff)
  have plain: "parseEdtf opts (s @ ''/'') = Inl (InvalidEdtf [])"
    if "customModifiers opts = []"
  proof -
    have "\<forall>p \<in> set ps. \<exists>r. parsePart opts p = Inr r"
      using good parsePart_plain [OF that] by blast
    then have "parseParts opts (ps @ [[]]) = Inl (InvalidEdtf [])"
      using empty by (rule parseParts_stops_at_last)
    then show ?thesis
      by (simp add: parseEdtf_fails_iff pieces)
  qed
  show ?thesis
    using accepted thrown plain by (auto simp: edtfToDate_def edtfToText_def)
qed

theorem trailing_slash_witness:
  "validateEdtf ''1930/'' = Inr ()
   \<and> parseEdtf DEFAULT_OPTIONS ''1930/'' = Inl (InvalidEdtf [])
   \<and> (\<exists>t. edtfToDate DEFAULT_OPTIONS ''1930/'' = Inl (InvalidEdtf t))
   \<and> (\<exists>t. edtfToText plainDate sampleLocale DEFAULT_OPTIONS ''1930/'' = Inl (InvalidEdtf t))"
proof -
  have valid: "validateEdtfPart ''1930'' = Inr ()"
    by (simp add: validateEdtfPart_def test_whole_def regex_defs)
  have plain: "\<forall>m \<in> set (customModifiers DEFAULT_OPTIONS). \<not> modifierRegex m []"
    by (simp add: DEFAULT_OPTIONS_def)
  show ?thesis
    using trailing_slash [OF valid plain, of plainDate sampleLocale]
    by (simp add: DEFAULT_OPTIONS_def)
qed

section \<open>The locale merge\<close>

lemma lodash_zip_two:
  "lodash_zip [JArr xs, JArr ys] =
     map (\<lambda>i. JArr [at_index xs i, at_index ys i]) [0 ..< max (length xs) (length ys)]"
  by (simp add: lodash_zip_def List.map_filter_simps)

lemma lodash_flatten_arrays:
  "lodash_flatten (map (\<lambda>i. JArr (f i)) js) = concat (map f js)"
  by (induction js) auto

lemma at_index_Cons: "at_index (x # xs) (Suc i) = at_index xs i" "at_index (x # xs) 0 = x"
  by (simp_all add: at_index_def)

lemma at_index_Nil: "at_index [] i = JUndefined"
  by (simp add: at_index_def)

lemma zipped_left:
  "map (\<lambda>i. [at_index (x # xs) i, JUndefined]) [0 ..< Suc n]
     = [x, JUndefined] # map (\<lambda>i. [at_index xs i, JUndefined]) [0 ..< n]"
  by (simp add: map_upt_Suc at_index_Cons del: upt_Suc)

lemma zipped_right:
  "map (\<lambda>i. [JUndefined, at_index (y # ys) i]) [0 ..< Suc n]
     = [JUndefined, y] # map (\<lambda>i. [JUndefined, at_index ys i]) [0 ..< n]"
  by (simp add: map_upt_Suc at_index_Cons del: upt_Suc)

lemma zipped_both:
  "map (\<lambda>i. [at_index (x # xs) i, at_index (y # ys) i]) [0 ..< Suc n]
     = [x, y] # map (\<lambda>i. [at_index xs i, at_index ys i]) [0 ..< n]"
  by (simp add: map_upt_Suc at_index_Cons del: upt_Suc)

lemma compact_left_only:
  "lodash_compact (concat (map (\<lambda>i. [at_index (map JStr a) i, JUndefined]) [0 ..< length a]))
     = map JStr (filter (\<lambda>s. s \<noteq> []) a)"
proof (induction a)
  case Nil
  show ?case by (simp add: lodash_compact_def)
next
  case (Cons x a)
  have "length (x # a) = Suc (length a)" "map JStr (x # a) = JStr x # map JStr a"
    by simp_all
  then show ?case
    using Cons by (simp only: zipped_left) (simp add: lodash_compact_def del: upt_Suc)
qed

lemma compact_right_only:
  "lodash_compact (concat (map (\<lambda>i. [JUndefined, at_index (map JStr b) i]) [0 ..< length b]))
     = map JStr (filter (\<lambda>s. s \<noteq> []) b)"
proof (induction b)
  case Nil
  show ?case by (simp add: lodash_compact_def)
next
  case (Cons y b)
  have "length (y # b) = Suc (length b)" "map JStr (y # b) = JStr y # map JStr b"
    by simp_all
  then show ?case
    using Cons by (simp only: zipped_right) (simp add: lodash_compact_def del: upt_Suc)
qed

lemma compact_zipped:
  "lodash_compact (concat (map (\<lambda>i. [at_index (map JStr a) i, at_index (map JStr b) i])
       [0 ..< max (length a) (length b)]))
     = map JStr (filter (\<lambda>s. s \<noteq> []) (interleave a b))"
proof (induction a b rule: interleave.induct)
  case (1 b)
  have "max (length ([] :: string list)) (length b) = length b"
    "\<And>i. at_index (map JStr []) i = JUndefined" "interleave [] b = b"
    by (simp_all add: at_index_Nil)
  then show ?case by (simp only: compact_right_only)
next
  case (2 x a)
  have "max (length (x # a)) (length ([] :: string list)) = length (x # a)"
    "\<And>i. at_index (map JStr []) i = JUndefined" "interleave (x # a) [] = x # a"
    by (simp_all add: at_index_Nil)
  then show ?case by (simp only: compact_left_only)
next
  case (3 x a y b)
  have "max (length (x # a)) (length (y # b)) = Suc (max (length a) (length b))"
    "map JStr (x # a) = JStr x # map JStr a" "map JStr (y # b) = JStr y # map JStr b"
    by simp_all
  then show ?case
    using 3 by (simp only: zipped_both) (simp add: lodash_compact_def del: upt_Suc)
qed

lemma uniq_from_strings:
  "uniq_from seen (map JStr xs)
     = map JStr (first_seen (filter (\<lambda>x. JStr x \<notin> set seen) xs))"
proof (induction xs arbitrary: seen)
  case Nil
  show ?case by simp
next
  case (Cons x xs)
  have known: "list_ex (\<lambda>y. same_value y (JStr x)) seen \<longleftrightarrow> JStr x \<in> set seen"
  proof -
    have "same_value y (JStr x) \<longleftrightarrow> y = JStr x" for y
      by (cases y) auto
    then show ?thesis by (auto simp: list_ex_iff)
  qed
  have rest: "filter (\<lambda>z. JStr z \<notin> set (seen @ [JStr x])) xs
              = filter (\<lambda>z. z \<noteq> x) (filter (\<lambda>z. JStr z \<notin> set seen) xs)"
    by (induction xs) auto
  show ?case
    using Cons [of seen] Cons [of "seen @ [JStr x]"] known rest by simp
qed

lemma lodash_uniq_strings: "lodash_uniq (map JStr xs) = map JStr (first_seen xs)"
  by (simp add: lodash_uniq_def uniq_from_strings)

lemma customizer_string_lists:
  "customizer (JArr (map JStr xs)) (JArr (map JStr ys)) = JArr (map JStr (interleave_merge xs ys))"
  by (simp add: lodash_zip_two lodash_flatten_arrays [of "\<lambda>i. [at_index (map JStr xs) i, at_index (map JStr ys) i]"]
        compact_zipped lodash_uniq_strings interleave_merge_def)

lemma set_first_seen: "set (first_seen xs) = set xs"
proof (induction xs rule: first_seen.induct)
  case 1
  show ?case by simp
next
  case (2 x xs)
  then show ?case by auto
qed

lemma set_interleave: "set (interleave xs ys) = set xs \<union> set ys"
  by (induction xs ys rule: interleave.induct) auto

lemma property_assign: "property (assign object key v) key = v"
  by (induction object) (auto simp: property_def)


text \<open>
  Claim C6, as amended. When a key's merged value so far is a list and the incoming
  pack has a list for it, the result takes the entries of the two lists alternately
  (first of the old, first of the new, second of the old, and so on), drops empty
  entries and keeps every entry where it is first seen; it has the same entries as the
  concatenation would have. When the value so far is a single string, the result is
  the list of that string followed by the incoming value. This is the value the key
  has after the pack is merged in.
\<close>

theorem locale_list_merge:
  "mergeValue (JArr (map JStr xs)) (JArr (map JStr ys)) = JArr (map JStr (interleave_merge xs ys))
   \<and> set (interleave_merge xs ys) = set (concat_merge xs ys)
   \<and> mergeValue (JStr s) v = JArr [JStr s, v]
   \<and> property (mergeInto object [(key, v)]) key = mergeValue (property object key) v"
proof -
  have lists: "mergeValue (JArr (map JStr xs)) (JArr (map JStr ys))
      = JArr (map JStr (interleave_merge xs ys))"
    by (simp add: customizer_string_lists del: customizer.simps)
  have entries: "set (interleave_merge xs ys) = set (concat_merge xs ys)"
    by (auto simp: interleave_merge_def concat_merge_def set_first_seen set_interleave)
  have promoted: "mergeValue (JStr s) v = JArr [JStr s, v]"
    by (cases v) simp_all
  have key: "property (mergeInto object [(key, v)]) key = mergeValue (property object key) v"
    by (simp add: property_assign)
  show ?thesis using lists entries promoted key by blast
qed

text \<open>
  The claim as stated has the lists concatenated in pack order. With two entries on
  each side the second pack's first entry comes before the first pack's second one.
\<close>

theorem interleaved_not_concatenated_counterexample:
  "mergeLocales
     [[(''approximate'', JArr [JStr ''about'', JStr ''around''])],
      [(''approximate'', JArr [JStr ''environ'', JStr ''vers''])]]
     = [(''approximate'', JArr [JStr ''about'', JStr ''environ'', JStr ''around'', JStr ''vers''])]
   \<and> concat_merge [''about'', ''around''] [''environ'', ''vers'']
     = [''about'', ''around'', ''environ'', ''vers'']"
  by code_simp

section \<open>Calendar arithmetic\<close>

lemma lex_le_refl: "lex_le xs xs"
  by (induction xs) auto

lemma lex_le_trans: "lex_le xs ys \<Longrightarrow> lex_le ys zs \<Longrightarrow> lex_le xs zs"
proof (induction xs ys arbitrary: zs rule: lex_le.induct)
  case (3 x xs y ys)
  then show ?case by (cases zs) auto
qed auto

lemma daysInMonth_bounds: "28 \<le> daysInMonth y m \<and> daysInMonth y m \<le> 31"
  by (simp add: daysInMonth_def)

lemma createUTCDate_well_formed: "createUTCDate y m d = Moment c \<Longrightarrow> well_formed c"
  by (auto simp: createUTCDate_def well_formed_def split: if_splits)

lemma add_months_zero: "well_formed c \<Longrightarrow> add_months 0 c = c"
  by (simp add: add_months_def well_formed_def Let_def)

lemma add_days_zero: "add_days 0 c = c"
  by (simp add: add_days.simps)

lemma add_months_well_formed: "well_formed c \<Longrightarrow> well_formed (add_months k c)"
  using daysInMonth_bounds [of "(year c * 12 + (month c - 1) + k) div 12" "(year c * 12 + (month c - 1) + k) mod 12 + 1"]
  by (simp add: add_months_def well_formed_def Let_def) 

lemma add_months_later:
  assumes "well_formed c" "0 \<le> k"
  shows "lex_le (calendar_fields c) (calendar_fields (add_months k c))"
proof -
  define t where "t = year c * 12 + (month c - 1)"
  have m: "0 \<le> month c - 1" "month c - 1 < 12" "day c \<le> daysInMonth (year c) (month c)"
    using assms(1) by (simp_all add: well_formed_def)
  have q: "t div 12 = year c" and r: "t mod 12 = month c - 1"
    using m by (simp_all add: t_def)
  have "t div 12 \<le> (t + k) div 12"
    using assms(2) by (simp add: zdiv_mono1)
  moreover have "(t + k) div 12 = t div 12 \<Longrightarrow> t mod 12 \<le> (t + k) mod 12"
    using assms(2) by presburger
  moreover have "(t + k) div 12 = t div 12 \<Longrightarrow> (t + k) mod 12 = t mod 12 \<Longrightarrow> k = 0"
    by presburger
  ultimately show ?thesis
    using q r m(3) lex_le_refl [of "[hour c, minute c, second c, millisecond c]"]
    by (auto simp: calendar_fields_def add_months_def Let_def t_def [symmetric])
qed

lemma add_months_earlier:
  assumes "well_formed c" "k \<le> 0"
  shows "lex_le (calendar_fields (add_months k c)) (calendar_fields c)"
proof -
  define t where "t = year c * 12 + (month c - 1)"
  have m: "0 \<le> month c - 1" "month c - 1 < 12" "day c \<le> daysInMonth (year c) (month c)"
    using assms(1) by (simp_all add: well_formed_def)
  have q: "t div 12 = year c" and r: "t mod 12 = month c - 1"
    using m by (simp_all add: t_def)
  have "(t + k) div 12 \<le> t div 12"
    using assms(2) by (simp add: zdiv_mono1)
  moreover have "(t + k) div 12 = t div 12 \<Longrightarrow> (t + k) mod 12 \<le> t mod 12"
    using assms(2) by presburger
  moreover have "(t + k) div 12 = t div 12 \<Longrightarrow> (t + k) mod 12 = t mod 12 \<Longrightarrow> k = 0"
    by presburger
  ultimately show ?thesis
    using q r m(3) lex_le_refl [of "[hour c, minute c, second c, millisecond c]"]
    by (auto simp: calendar_fields_def add_months_def Let_def t_def [symmetric])
qed

lemma next_day_well_formed: "well_formed c \<Longrightarrow> well_formed (next_day c)"
  using daysInMonth_bounds [of "year c" "month c + 1"] daysInMonth_bounds [of "year c + 1" 1]
  by (auto simp: next_day_def well_formed_def)

lemma prev_day_well_formed: "well_formed c \<Longrightarrow> well_formed (prev_day c)"
  using daysInMonth_bounds [of "year c" "month c - 1"] daysInMonth_bounds [of "year c - 1" 12]
  by (auto simp: prev_day_def well_formed_def daysInMonth_def)

lemma next_day_later: "lex_le (calendar_fields c) (calendar_fields (next_day c))"
  using lex_le_refl [of "[hour c, minute c, second c, millisecond c]"]
  by (auto simp: next_day_def calendar_fields_def)

lemma prev_day_earlier: "lex_le (calendar_fields (prev_day c)) (calendar_fields c)"
  using lex_le_refl [of "[hour c, minute c, second c, millisecond c]"]
  by (auto simp: prev_day_def calendar_fields_def)

lemma add_days_well_formed: "well_formed c \<Longrightarrow> well_formed (add_days k c)"
proof (induction k c rule: add_days.induct)
  case (1 k c)
  then show ?case
    by (subst add_days.simps) (auto simp: next_day_well_formed prev_day_well_formed)
qed

lemma add_days_later: "0 \<le> k \<Longrightarrow> lex_le (calendar_fields c) (calendar_fields (add_days k c))"
proof (induction k c rule: add_days.induct)
  case (1 k c)
  show ?case
  proof (cases "0 < k")
    case True
    with 1 have "lex_le (calendar_fields (next_day c)) (calendar_fields (add_days (k - 1) (next_day c)))"
      by simp
    with next_day_later [of c] have "lex_le (calendar_fields c) (calendar_fields (add_days (k - 1) (next_day c)))"
      by (rule lex_le_trans)
    with True show ?thesis by (subst add_days.simps) simp
  next
    case False
    with 1(3) have "k = 0" by simp
    then show ?thesis by (simp add: add_days_zero lex_le_refl)
  qed
qed

lemma add_days_earlier: "k \<le> 0 \<Longrightarrow> lex_le (calendar_fields (add_days k c)) (calendar_fields c)"
proof (induction k c rule: add_days.induct)
  case (1 k c)
  show ?case
  proof (cases "k < 0")
    case True
    with 1 have "lex_le (calendar_fields (add_days (k + 1) (prev_day c))) (calendar_fields (prev_day c))"
      by simp
    from this prev_day_earlier [of c]
    have "lex_le (calendar_fields (add_days (k + 1) (prev_day c))) (calendar_fields c)"
      by (rule lex_le_trans)
    with True show ?thesis by (subst add_days.simps) simp
  next
    case False
    with 1(3) have "k = 0" by simp
    then show ?thesis by (simp add: add_days_zero lex_le_refl)
  qed
qed

lemma moment_le_trans: "moment_le a b \<Longrightarrow> moment_le b c \<Longrightarrow> moment_le a c"
  by (cases a; cases b; cases c) (auto intro: lex_le_trans)


lemma toInt_snoc: "toInt (ds @ [c]) = 10 * toInt ds + (int (of_char c) - 48)"
  by (simp add: toInt_def)

lemma digit_value: "is_digit c \<Longrightarrow> 0 \<le> int (of_char c) - 48 \<and> int (of_char c) - 48 \<le> 9"
  by (auto simp: is_digit_def)

lemma toInt_bounds:
  "list_all is_digit ds \<Longrightarrow> 0 \<le> toInt ds \<and> toInt ds < 10 ^ length ds"
proof (induction ds rule: rev_induct)
  case Nil
  show ?case by (simp add: toInt_def)
next
  case (snoc c ds)
  then have "0 \<le> toInt ds" "toInt ds < 10 ^ length ds" "is_digit c" by simp_all
  with digit_value [of c] show ?case by (simp add: toInt_snoc)
qed

lemma match_digits_found:
  assumes "match_digits n s = Some (found, rest)"
  shows "list_all is_digit found" and "length found \<le> n"
proof -
  from assms have found: "found = takeWhile is_digit (take n (dropWhile (\<lambda>c. \<not> is_digit c) s))"
    by (auto simp: match_digits_def Let_def split: if_splits)
  show "list_all is_digit found"
    unfolding found list_all_iff by (auto dest: set_takeWhileD)
  have "length found \<le> length (take n (dropWhile (\<lambda>c. \<not> is_digit c) s))"
    unfolding found by (rule length_takeWhile_le)
  then show "length found \<le> n" by simp
qed

lemma parseYear_bounds:
  assumes "list_all is_digit ys" "length ys \<le> 4"
  shows "0 \<le> parseYear ys \<and> parseYear ys \<le> 9999"
proof -
  have b: "0 \<le> toInt ys" "toInt ys < 10 ^ length ys"
    using toInt_bounds [OF assms(1)] by simp_all
  have "(10::int) ^ length ys \<le> 10 ^ 4"
    using assms(2) by (intro power_increasing) simp_all
  with b have four: "toInt ys \<le> 9999" by simp
  show ?thesis
  proof (cases "length ys = 2")
    case True
    with b have "toInt ys < 100" by simp
    with b True show ?thesis by (simp add: parseYear_def)
  next
    case False
    with b four show ?thesis by (simp add: parseYear_def)
  qed
qed

lemma createUTCDate_fields:
  assumes "createUTCDate y m d = Moment c"
  shows "well_formed c" and "year c = y" and "month c = m" and "day c = d"
    and "hour c = 0" and "minute c = 0" and "second c = 0" and "millisecond c = 0"
  using assms by (auto simp: createUTCDate_def well_formed_def split: if_splits)

lemma moment_utc_parsed:
  assumes "moment_utc s f = Moment c"
  shows "well_formed c" and "0 \<le> year c" and "year c \<le> 9999"
proof -
  from assms obtain ys rest y m d where
    ys: "match_digits 4 s = Some (ys, rest)" and c: "createUTCDate (parseYear ys) m d = Moment c"
    by (auto simp: moment_utc_def split: option.splits prod.splits date_format.splits)
  from c show "well_formed c" by (rule createUTCDate_fields)
  from c have "year c = parseYear ys" by (rule createUTCDate_fields)
  with parseYear_bounds [OF match_digits_found [OF ys]]
  show "0 \<le> year c" and "year c \<le> 9999" by simp_all
qed

lemma dayFromYear_bounds:
  assumes "0 \<le> y" "y \<le> 9999"
  shows "- 720000 \<le> dayFromYear y" and "dayFromYear y \<le> 2933000"
proof -
  have a: "(y - 1969) div 4 \<le> 8030 div 4" "(- 1969) div 4 \<le> (y - 1969) div 4"
    using assms by (intro zdiv_mono1; simp)+
  have b: "(y - 1901) div 100 \<le> 8098 div 100" "(- 1901) div 100 \<le> (y - 1901) div 100"
    using assms by (intro zdiv_mono1; simp)+
  have c: "(y - 1601) div 400 \<le> 8398 div 400" "(- 1601) div 400 \<le> (y - 1601) div 400"
    using assms by (intro zdiv_mono1; simp)+
  show "- 720000 \<le> dayFromYear y" and "dayFromYear y \<le> 2933000"
    using assms a b c unfolding dayFromYear_def by simp_all
qed

lemma daysBeforeMonth_bounds: "0 \<le> daysBeforeMonth y m \<and> daysBeforeMonth y m \<le> 335"
  by (simp add: daysBeforeMonth_def)

lemma in_range_common_era:
  assumes "well_formed c" "0 \<le> year c" "year c \<le> 9999"
  shows "in_range c"
proof -
  define n where "n = dayFromYear (year c) + daysBeforeMonth (year c) (month c) + day c - 1"
  have d: "1 \<le> day c" "day c \<le> 31"
    using assms(1) daysInMonth_bounds [of "year c" "month c"] by (simp_all add: well_formed_def)
  have n: "- 720000 \<le> n" "n \<le> 2934000"
    using dayFromYear_bounds [OF assms(2,3)] daysBeforeMonth_bounds [of "year c" "month c"] d
    unfolding n_def by linarith+
  have t: "0 \<le> hour c" "hour c \<le> 23" "0 \<le> minute c" "minute c \<le> 59"
    "0 \<le> second c" "second c \<le> 59" "0 \<le> millisecond c" "millisecond c \<le> 999"
    using assms(1) by (simp_all add: well_formed_def)
  have "timeValue c = n * 86400000 + hour c * 3600000 + minute c * 60000
      + second c * 1000 + millisecond c"
    by (simp add: timeValue_def n_def)
  then show ?thesis
    unfolding in_range_def using n t by linarith
qed

lemma clip_Moment: "clip c = Moment c' \<longleftrightarrow> in_range c \<and> c' = c"
  by (auto simp: clip_def)

lemma clip_in_range: "in_range c \<Longrightarrow> clip c = Moment c"
  by (simp add: clip_def)

lemma moment_add_zero: "moment_add 0 u m = m" "moment_subtract 0 u m = m"
  by (cases m; cases u; simp add: moment_subtract_def)+

lemma moment_add_valid:
  assumes "moment_add v u (Moment c) = Moment c'" "well_formed c" "0 \<le> v"
  shows "well_formed c'" and "lex_le (calendar_fields c) (calendar_fields c')"
proof -
  have "well_formed c' \<and> lex_le (calendar_fields c) (calendar_fields c')"
  proof (cases "v = 0")
    case True
    with assms show ?thesis by (cases u) (simp_all add: lex_le_refl)
  next
    case False
    with assms show ?thesis
      by (cases u)
         (auto simp: clip_Moment add_months_well_formed add_months_later
            add_days_well_formed add_days_later)
  qed
  then show "well_formed c'" and "lex_le (calendar_fields c) (calendar_fields c')"
    by simp_all
qed

lemma moment_subtract_valid:
  assumes "moment_subtract v u (Moment c) = Moment c'" "well_formed c" "0 \<le> v"
  shows "well_formed c'" and "lex_le (calendar_fields c') (calendar_fields c)"
proof -
  have "well_formed c' \<and> lex_le (calendar_fields c') (calendar_fields c)"
  proof (cases "v = 0")
    case True
    with assms show ?thesis by (cases u) (simp_all add: moment_subtract_def lex_le_refl)
  next
    case False
    with assms show ?thesis
      by (cases u)
         (auto simp: moment_subtract_def clip_Moment add_months_well_formed add_months_earlier
            add_days_well_formed add_days_earlier)
  qed
  then show "well_formed c'" and "lex_le (calendar_fields c') (calendar_fields c)"
    by simp_all
qed

lemma startOf_valid:
  assumes "startOf u (Moment c) = Moment c'" "well_formed c"
  shows "lex_le (calendar_fields c') (calendar_fields c)"
  using assms by (cases u) (auto simp: clip_Moment calendar_fields_def well_formed_def)

lemma endOf_valid:
  assumes "endOf u (Moment c) = Moment c'" "well_formed c"
  shows "lex_le (calendar_fields c) (calendar_fields c')"
  using assms
  by (cases u) (auto simp: clip_Moment calendar_fields_def well_formed_def daysInMonth_def)

lemma startOf_Moment: "startOf u m = Moment a \<Longrightarrow> \<exists>c. m = Moment c"
  by (cases m) simp_all

lemma endOf_Moment: "endOf u m = Moment a \<Longrightarrow> \<exists>c. m = Moment c"
  by (cases m) simp_all

lemma shifted_bounds_ordered:
  assumes "well_formed c" "0 \<le> v"
    and lo: "startOf u (moment_subtract v u (Moment c)) = Moment a"
    and hi: "endOf u (moment_add v u (Moment c)) = Moment b"
  shows "moment_le (Moment a) (Moment b)"
proof -
  from lo obtain l where l: "moment_subtract v u (Moment c) = Moment l"
    using startOf_Moment by blast
  from hi obtain h where h: "moment_add v u (Moment c) = Moment h"
    using endOf_Moment by blast
  note lv = moment_subtract_valid [OF l assms(1,2)]
  note hv = moment_add_valid [OF h assms(1,2)]
  have "lex_le (calendar_fields a) (calendar_fields l)"
    using lo lv(1) unfolding l by (rule startOf_valid)
  then have "lex_le (calendar_fields a) (calendar_fields c)"
    using lv(2) by (rule lex_le_trans)
  then have "lex_le (calendar_fields a) (calendar_fields h)"
    using hv(2) by (rule lex_le_trans)
  moreover have "lex_le (calendar_fields h) (calendar_fields b)"
    using hi hv(1) unfolding h by (rule endOf_valid)
  ultimately show ?thesis
    by (simp add: lex_le_trans)
qed

lemma unit_bounds_ordered:
  assumes "well_formed c"
    and "startOf u (Moment c) = Moment a" and "endOf u (Moment c) = Moment b"
  shows "moment_le (Moment a) (Moment b)"
  using startOf_valid [OF assms(2,1)] endOf_valid [OF assms(3,1)]
  by (simp add: lex_le_trans)

lemma unit_bounds_valid:
  assumes "moment_utc s f = Moment c"
  shows "startOf u (Moment c) \<noteq> InvalidDate" and "endOf u (Moment c) \<noteq> InvalidDate"
proof -
  note p = moment_utc_parsed [OF assms]
  have wf: "1 \<le> month c" "month c \<le> 12" "1 \<le> day c" "day c \<le> daysInMonth (year c) (month c)"
    using p(1) by (simp_all add: well_formed_def)
  have "in_range (c\<lparr>month := 1, day := 1, hour := 0, minute := 0, second := 0, millisecond := 0\<rparr>)"
    "in_range (c\<lparr>day := 1, hour := 0, minute := 0, second := 0, millisecond := 0\<rparr>)"
    "in_range (c\<lparr>hour := 0, minute := 0, second := 0, millisecond := 0\<rparr>)"
    using p wf daysInMonth_bounds [of "year c" 1] daysInMonth_bounds [of "year c" "month c"]
    by (intro in_range_common_era; simp add: well_formed_def)+
  then show "startOf u (Moment c) \<noteq> InvalidDate"
    by (cases u) (simp_all add: clip_def)
  have "in_range (c\<lparr>month := 12, day := 31,
                    hour := 23, minute := 59, second := 59, millisecond := 999\<rparr>)"
    "in_range (c\<lparr>day := daysInMonth (year c) (month c),
                    hour := 23, minute := 59, second := 59, millisecond := 999\<rparr>)"
    "in_range (c\<lparr>hour := 23, minute := 59, second := 59, millisecond := 999\<rparr>)"
    using p wf daysInMonth_bounds [of "year c" "month c"]
    by (intro in_range_common_era; simp add: well_formed_def daysInMonth_def)+
  then show "endOf u (Moment c) \<noteq> InvalidDate"
    by (cases u) (simp_all add: clip_def)
qed

section \<open>The clean date of a validated segment\<close>

lemma parsePart_fields:
  assumes "parsePart opts piece = Inr r"
  shows "cleanEdtf r = filter (\<lambda>c. c \<notin> set stripped_chars)
                         (snd (removeCustomModifiers (customModifiers opts) ([], piece)))"
    and "format r = (if length (cleanEdtf r) = 4 then YYYY
                     else if length (cleanEdtf r) = 7 then YYYY_MM else YYYY_MM_DD)"
    and "minDate r =
          (if length (cleanEdtf r) = 4
           then startOf Year
                  (if isApproximate r
                   then moment_subtract (years (approximateVariance opts)) Year
                          (moment_utc (cleanEdtf r) YYYY)
                   else moment_utc (cleanEdtf r) YYYY)
           else if length (cleanEdtf r) = 7
           then startOf Month
                  (if isApproximate r
                   then moment_subtract (months (approximateVariance opts)) Month
                          (moment_utc (cleanEdtf r) YYYY_MM)
                   else moment_utc (cleanEdtf r) YYYY_MM)
           else startOf Day
                  (if isApproximate r
                   then moment_subtract (days (approximateVariance opts)) Day
                          (moment_utc (cleanEdtf r) YYYY_MM_DD)
                   else moment_utc (cleanEdtf r) YYYY_MM_DD))"
    and "maxDate r =
          (if length (cleanEdtf r) = 4
           then endOf Year
                  (if isApproximate r
                   then moment_add (years (approximateVariance opts)) Year
                          (moment_utc (cleanEdtf r) YYYY)
                   else moment_utc (cleanEdtf r) YYYY)
           else if length (cleanEdtf r) = 7
           then endOf Month
                  (if isApproximate r
                   then moment_add (months (approximateVariance opts)) Month
                          (moment_utc (cleanEdtf r) YYYY_MM)
                   else moment_utc (cleanEdtf r) YYYY_MM)
           else endOf Day
                  (if isApproximate r
                   then moment_add (days (approximateVariance opts)) Day
                          (moment_utc (cleanEdtf r) YYYY_MM_DD)
                   else moment_utc (cleanEdtf r) YYYY_MM_DD))"
  using assms
  by (auto simp: parsePart_def Let_def split: prod.splits sum.splits if_splits)

text \<open>What is left of a validated segment after cleaning.\<close>

lemma cleaned_away:
  assumes "w \<in> lang r" "alphabet r \<subseteq> set stripped_chars"
  shows "filter (\<lambda>c. c \<notin> set stripped_chars) w = []"
  using lang_alphabet [OF assms(1)] assms(2) by (auto simp: filter_empty_conv)

lemma cleaned_kept:
  assumes "w \<in> lang r" "alphabet r \<inter> set stripped_chars = {}"
  shows "filter (\<lambda>c. c \<notin> set stripped_chars) w = w"
  using lang_alphabet [OF assms(1)] assms(2) by (auto simp: filter_id_conv)

lemma cleaned_parts:
  "w \<in> lang spaces \<Longrightarrow> filter (\<lambda>c. c \<notin> set stripped_chars) w = []"
  "w \<in> lang (opt openStart) \<Longrightarrow> filter (\<lambda>c. c \<notin> set stripped_chars) w = []"
  "w \<in> lang (opt openEnd) \<Longrightarrow> filter (\<lambda>c. c \<notin> set stripped_chars) w = []"
  "w \<in> lang (opt modifier) \<Longrightarrow> filter (\<lambda>c. c \<notin> set stripped_chars) w = []"
  "w \<in> lang date \<Longrightarrow> filter (\<lambda>c. c \<notin> set stripped_chars) w = w"
proof -
  have "alphabet spaces \<subseteq> set stripped_chars" "alphabet (opt openStart) \<subseteq> set stripped_chars"
    "alphabet (opt openEnd) \<subseteq> set stripped_chars" "alphabet (opt modifier) \<subseteq> set stripped_chars"
    "alphabet date \<inter> set stripped_chars = {}"
    by (simp_all add: regex_defs stripped_chars_def)
  then show
    "w \<in> lang spaces \<Longrightarrow> filter (\<lambda>c. c \<notin> set stripped_chars) w = []"
    "w \<in> lang (opt openStart) \<Longrightarrow> filter (\<lambda>c. c \<notin> set stripped_chars) w = []"
    "w \<in> lang (opt openEnd) \<Longrightarrow> filter (\<lambda>c. c \<notin> set stripped_chars) w = []"
    "w \<in> lang (opt modifier) \<Longrightarrow> filter (\<lambda>c. c \<notin> set stripped_chars) w = []"
    "w \<in> lang date \<Longrightarrow> filter (\<lambda>c. c \<notin> set stripped_chars) w = w"
    using cleaned_away cleaned_kept by blast+
qed

lemma cleaned_section:
  assumes "c \<in> lang edtfSection"
  shows "filter (\<lambda>c. c \<notin> set stripped_chars) c \<in> lang date"
proof -
  from assms obtain m1 v1 d v2 m2 where
    "c = m1 @ v1 @ d @ v2 @ m2" "m1 \<in> lang (opt modifier)" "v1 \<in> lang spaces"
    "d \<in> lang date" "v2 \<in> lang spaces" "m2 \<in> lang (opt modifier)"
    unfolding edtfSection_def by (auto simp: in_cat)
  then show ?thesis by (simp add: cleaned_parts)
qed

lemma lang_digit: "w \<in> lang digit \<longleftrightarrow> (\<exists>c. w = [c] \<and> is_digit c)"
  by (auto simp: digit_def is_digit_def)

lemma in_catE:
  assumes "w \<in> cat A B"
  obtains u v where "w = u @ v" "u \<in> A" "v \<in> B"
  using assms by (auto simp: cat_def)

lemma date_shape:
  assumes "w \<in> lang date"
  shows "\<exists>a b c d rest. w = [a, b, c, d] @ rest \<and> is_digit a \<and> is_digit b \<and> is_digit c
            \<and> is_digit d \<and> (rest = [] \<or> (\<exists>t. rest = CHR ''-'' # t))"
proof -
  define fields where "fields =
    Seq (Cls ''-'')
      (Seq (Alt (Seq (Cls ''0'') (Cls ''123456789'')) (Seq (Cls ''1'') (Cls ''012'')))
         (opt (Seq (Cls ''-'')
            (Alt (Seq (Cls ''012'') (Cls ''123456789''))
                 (Seq (Cls ''3'') (Cls ''01''))))))"
  have "w \<in> cat (lang digit) (cat (lang digit) (cat (lang digit) (cat (lang digit)
            (lang (Alt fields Empty)))))"
    using assms by (simp add: date_def fields_def opt_def)
  then obtain a b c d rest where
    w: "w = a @ b @ c @ d @ rest" and digits: "a \<in> lang digit" "b \<in> lang digit"
      "c \<in> lang digit" "d \<in> lang digit"
    and rest: "rest \<in> lang (Alt fields Empty)"
    by (elim in_catE) blast
  from rest have "rest = [] \<or> (\<exists>t. rest = CHR ''-'' # t)"
    unfolding fields_def by (auto elim!: in_catE)
  with w digits show ?thesis unfolding lang_digit by auto
qed

lemma cleaned_without_slash:
  assumes "s \<in> lang edtfRegex" "CHR ''/'' \<notin> set s"
  shows "filter (\<lambda>c. c \<notin> set stripped_chars) s \<in> lang date"
proof -
  from assms(1) obtain w1 o1 w2 c w3 t w4 where
    s: "s = w1 @ o1 @ w2 @ c @ w3 @ t @ w4"
    and parts: "w1 \<in> lang spaces" "o1 \<in> lang (opt openStart)" "w2 \<in> lang spaces"
      "c \<in> lang edtfSection" "w3 \<in> lang spaces" "w4 \<in> lang spaces"
    and t: "t \<in> lang (opt (Alt (Seq (Cls ''/'') (Seq spaces edtfSection)) (opt openEnd)))"
    unfolding edtfRegex_def by (auto simp: in_cat)
  from t consider
      (interval) u where "t = CHR ''/'' # u"
    | (closing) "t \<in> lang (opt openEnd)"
    | (nothing) "t = []"
    by (auto simp: opt_def [of "Alt (Seq (Cls ''/'') (Seq spaces edtfSection)) (opt openEnd)"] in_cat)
  then have "filter (\<lambda>c. c \<notin> set stripped_chars) t = []"
  proof cases
    case interval
    with s assms(2) show ?thesis by simp
  next
    case closing
    then show ?thesis by (rule cleaned_parts)
  next
    case nothing
    then show ?thesis by simp
  qed
  then show ?thesis
    using s parts cleaned_section [of c] by (simp add: cleaned_parts)
qed

lemma cleaned_year:
  assumes "s \<in> lang edtfRegex"
    and "length (filter (\<lambda>c. c \<notin> set stripped_chars) s) = 4"
  shows "list_all is_digit (filter (\<lambda>c. c \<notin> set stripped_chars) s)"
proof -
  let ?clean = "filter (\<lambda>c. c \<notin> set stripped_chars)"
  have slash: "CHR ''/'' \<notin> set stripped_chars"
    by (simp add: stripped_chars_def space_chars_def)
  have "CHR ''/'' \<notin> set s"
  proof
    assume "CHR ''/'' \<in> set s"
    with valid_pieces [OF assms(1)] obtain a b where
      ab: "s = a @ CHR ''/'' # b" "CHR ''/'' \<notin> set a" "CHR ''/'' \<notin> set b"
        "a \<in> lang edtfRegex" "b \<in> lang edtfRegex"
      by blast
    have "4 \<le> length (?clean a)" "4 \<le> length (?clean b)"
      using date_shape [OF cleaned_without_slash [OF ab(4,2)]]
        date_shape [OF cleaned_without_slash [OF ab(5,3)]]
      by auto
    moreover have "?clean s = ?clean a @ CHR ''/'' # ?clean b"
      using ab(1) slash by simp
    ultimately show False using assms(2) by simp
  qed
  with assms(1) have "?clean s \<in> lang date" by (rule cleaned_without_slash)
  from date_shape [OF this] assms(2) show ?thesis by auto
qed

lemma match_four_digits:
  assumes "list_all is_digit w" "length w = 4"
  shows "match_digits 4 w = Some (w, [])"
proof -
  from assms(2) obtain a b c d where w: "w = [a, b, c, d]"
    by (auto simp: numeral_eq_Suc length_Suc_conv)
  with assms(1) show ?thesis by (simp add: match_digits_def)
qed

lemma moment_utc_year:
  assumes "list_all is_digit w" "length w = 4"
  shows "moment_utc w YYYY =
           Moment \<lparr>year = toInt w, month = 1, day = 1,
                   hour = 0, minute = 0, second = 0, millisecond = 0\<rparr>"
  using assms
  by (simp add: moment_utc_def match_four_digits parseYear_def createUTCDate_def daysInMonth_def)

lemma add_months_january:
  "add_months (12 * k)
     \<lparr>year = y, month = 1, day = 1, hour = 0, minute = 0, second = 0, millisecond = 0\<rparr>
   = \<lparr>year = y + k, month = 1, day = 1, hour = 0, minute = 0, second = 0, millisecond = 0\<rparr>"
proof -
  have "(y * 12 + 12 * k) div 12 = y + k" "(y * 12 + 12 * k) mod 12 = 0"
    by simp_all
  then show ?thesis by (simp add: add_months_def Let_def daysInMonth_def)
qed

lemma year_bounds_explicit:
  assumes "list_all is_digit w" "length w = 4"
  shows "startOf Year (moment_add k Year (moment_utc w YYYY))
           = clip \<lparr>year = toInt w + k, month = 1, day = 1,
                   hour = 0, minute = 0, second = 0, millisecond = 0\<rparr>"
    and "endOf Year (moment_add k Year (moment_utc w YYYY))
           = (if in_range \<lparr>year = toInt w + k, month = 1, day = 1,
                            hour = 0, minute = 0, second = 0, millisecond = 0\<rparr>
              then clip \<lparr>year = toInt w + k, month = 12, day = 31,
                         hour = 23, minute = 59, second = 59, millisecond = 999\<rparr>
              else InvalidDate)"
proof -
  let ?b = "\<lparr>year = toInt w, month = 1, day = 1,
             hour = 0, minute = 0, second = 0, millisecond = 0\<rparr>"
  have base: "moment_utc w YYYY = Moment ?b"
    using assms by (rule moment_utc_year)
  have "0 \<le> toInt w" "toInt w \<le> 9999"
    using toInt_bounds [OF assms(1)] assms(2) by simp_all
  then have inside: "in_range ?b"
    by (intro in_range_common_era) (simp_all add: well_formed_def daysInMonth_def)
  show "startOf Year (moment_add k Year (moment_utc w YYYY))
           = clip \<lparr>year = toInt w + k, month = 1, day = 1,
                   hour = 0, minute = 0, second = 0, millisecond = 0\<rparr>"
    using inside by (simp add: base add_months_january clip_def)
  show "endOf Year (moment_add k Year (moment_utc w YYYY))
           = (if in_range \<lparr>year = toInt w + k, month = 1, day = 1,
                            hour = 0, minute = 0, second = 0, millisecond = 0\<rparr>
              then clip \<lparr>year = toInt w + k, month = 12, day = 31,
                         hour = 23, minute = 59, second = 59, millisecond = 999\<rparr>
              else InvalidDate)"
    using inside by (simp add: base add_months_january clip_def)
qed

lemma year_bounds_plain:
  assumes "list_all is_digit w" "length w = 4"
  shows "startOf Year (moment_utc w YYYY)
           = Moment \<lparr>year = toInt w, month = 1, day = 1,
                     hour = 0, minute = 0, second = 0, millisecond = 0\<rparr>"
    and "endOf Year (moment_utc w YYYY)
           = Moment \<lparr>year = toInt w, month = 12, day = 31,
                     hour = 23, minute = 59, second = 59, millisecond = 999\<rparr>"
proof -
  have b: "0 \<le> toInt w" "toInt w \<le> 9999"
    using toInt_bounds [OF assms(1)] assms(2) by simp_all
  then have "in_range \<lparr>year = toInt w, month = 1, day = 1,
                       hour = 0, minute = 0, second = 0, millisecond = 0\<rparr>"
    by (intro in_range_common_era) (simp_all add: well_formed_def daysInMonth_def)
  moreover from b have "in_range \<lparr>year = toInt w, month = 12, day = 31,
                       hour = 23, minute = 59, second = 59, millisecond = 999\<rparr>"
    by (intro in_range_common_era) (simp_all add: well_formed_def daysInMonth_def)
  ultimately show "startOf Year (moment_utc w YYYY)
           = Moment \<lparr>year = toInt w, month = 1, day = 1,
                     hour = 0, minute = 0, second = 0, millisecond = 0\<rparr>"
    and "endOf Year (moment_utc w YYYY)
           = Moment \<lparr>year = toInt w, month = 12, day = 31,
                     hour = 23, minute = 59, second = 59, millisecond = 999\<rparr>"
    using assms by (simp_all add: moment_utc_year clip_def)
qed

lemma parsed_bounds_ordered:
  assumes r: "parsePart opts piece = Inr r"
    and v: "isApproximate r \<longrightarrow>
              0 \<le> years (approximateVariance opts) \<and> 0 \<le> months (approximateVariance opts)
              \<and> 0 \<le> days (approximateVariance opts)"
    and valid: "minDate r \<noteq> InvalidDate" "maxDate r \<noteq> InvalidDate"
  shows "moment_le (minDate r) (maxDate r)"
proof -
  obtain a b where ab: "minDate r = Moment a" "maxDate r = Moment b"
    using valid by (cases "minDate r"; cases "maxDate r") auto
  define f where "f = (if length (cleanEdtf r) = 4 then YYYY
                       else if length (cleanEdtf r) = 7 then YYYY_MM else YYYY_MM_DD)"
  define u where "u = (if length (cleanEdtf r) = 4 then Year
                       else if length (cleanEdtf r) = 7 then Month else Day)"
  define k where "k = (if length (cleanEdtf r) = 4 then years (approximateVariance opts)
                       else if length (cleanEdtf r) = 7 then months (approximateVariance opts)
                       else days (approximateVariance opts))"
  have lo: "minDate r = startOf u (if isApproximate r
              then moment_subtract k u (moment_utc (cleanEdtf r) f) else moment_utc (cleanEdtf r) f)"
    and hi: "maxDate r = endOf u (if isApproximate r
              then moment_add k u (moment_utc (cleanEdtf r) f) else moment_utc (cleanEdtf r) f)"
    using parsePart_fields(3,4) [OF r] by (simp_all add: f_def u_def k_def)
  obtain c where c: "moment_utc (cleanEdtf r) f = Moment c"
  proof (cases "moment_utc (cleanEdtf r) f")
    case InvalidDate
    have "minDate r = InvalidDate"
      unfolding lo InvalidDate by (simp add: moment_subtract_def)
    with ab(1) show ?thesis by simp
  next
    case (Moment c)
    then show ?thesis by (rule that)
  qed
  then have wf: "well_formed c" by (rule moment_utc_parsed)
  show ?thesis
  proof (cases "isApproximate r")
    case True
    with v have k: "0 \<le> k" by (simp add: k_def)
    have lo': "startOf u (moment_subtract k u (Moment c)) = Moment a"
      using lo unfolding ab(1) using True c by simp
    have hi': "endOf u (moment_add k u (Moment c)) = Moment b"
      using hi unfolding ab(2) using True c by simp
    from shifted_bounds_ordered [OF wf k lo' hi'] show ?thesis
      unfolding ab .
  next
    case False
    have lo': "startOf u (Moment c) = Moment a"
      using lo unfolding ab(1) using False c by simp
    have hi': "endOf u (Moment c) = Moment b"
      using hi unfolding ab(2) using False c by simp
    from unit_bounds_ordered [OF wf lo' hi'] show ?thesis
      unfolding ab .
  qed
qed

section \<open>The resolved range of a segment\<close>

text \<open>
  Claim C2. A segment that passes the validator and holds \<open>~\<close> or \<open>%\<close>, as the
  custom modifiers left it, is parsed as approximate. Its lower bound is the start of
  the unit of the base instant moved back by the configured variance and its upper
  bound the end of the unit of the base instant moved forward by it. Unit and variance
  go with the length of the clean date: the year and \<open>years\<close> for 4 characters, the
  month and \<open>months\<close> for 7, the day and \<open>days\<close> otherwise. For a year \<open>Y\<close> and a
  variance \<open>v\<close> the bounds are 1 January of \<open>Y - v\<close>, 00:00:00.000, and 31 December
  of \<open>Y + v\<close>, 23:59:59.999, or an invalid date where that lies outside the range of
  dates. With a variance of 0 the bounds are the start and the end of the base
  instant's own unit, which is what any segment with the same clean date and no
  approximation resolves to.
\<close>

theorem approximate_range:
  assumes "snd (removeCustomModifiers (customModifiers opts) ([], piece)) = s"
    and "validateEdtfPart s = Inr ()"
    and "CHR ''~'' \<in> set s \<or> CHR ''%'' \<in> set s"
  shows "\<exists>r. parsePart opts piece = Inr r
           \<and> isApproximate r
           \<and> cleanEdtf r = filter (\<lambda>c. c \<notin> set stripped_chars) s
           \<and> (length (cleanEdtf r) = 4 \<longrightarrow>
                 format r = YYYY
                 \<and> minDate r = startOf Year (moment_subtract (years (approximateVariance opts)) Year
                                               (moment_utc (cleanEdtf r) YYYY))
                 \<and> maxDate r = endOf Year (moment_add (years (approximateVariance opts)) Year
                                             (moment_utc (cleanEdtf r) YYYY))
                 \<and> minDate r =
                     clip \<lparr>year = toInt (cleanEdtf r) - years (approximateVariance opts),
                           month = 1, day = 1,
                           hour = 0, minute = 0, second = 0, millisecond = 0\<rparr>
                 \<and> maxDate r =
                     (if in_range \<lparr>year = toInt (cleanEdtf r) + years (approximateVariance opts),
                                   month = 1, day = 1,
                                   hour = 0, minute = 0, second = 0, millisecond = 0\<rparr>
                      then clip \<lparr>year = toInt (cleanEdtf r) + years (approximateVariance opts),
                                 month = 12, day = 31,
                                 hour = 23, minute = 59, second = 59, millisecond = 999\<rparr>
                      else InvalidDate))
           \<and> (length (cleanEdtf r) = 7 \<longrightarrow>
                 format r = YYYY_MM
                 \<and> minDate r = startOf Month (moment_subtract (months (approximateVariance opts)) Month
                                                (moment_utc (cleanEdtf r) YYYY_MM))
                 \<and> maxDate r = endOf Month (moment_add (months (approximateVariance opts)) Month
                                              (moment_utc (cleanEdtf r) YYYY_MM)))
           \<and> (length (cleanEdtf r) \<noteq> 4 \<and> length (cleanEdtf r) \<noteq> 7 \<longrightarrow>
                 format r = YYYY_MM_DD
                 \<and> minDate r = startOf Day (moment_subtract (days (approximateVariance opts)) Day
                                              (moment_utc (cleanEdtf r) YYYY_MM_DD))
                 \<and> maxDate r = endOf Day (moment_add (days (approximateVariance opts)) Day
                                            (moment_utc (cleanEdtf r) YYYY_MM_DD)))
           \<and> ((length (cleanEdtf r) = 4 \<and> years (approximateVariance opts) = 0
                \<or> length (cleanEdtf r) = 7 \<and> months (approximateVariance opts) = 0
                \<or> length (cleanEdtf r) \<noteq> 4 \<and> length (cleanEdtf r) \<noteq> 7
                    \<and> days (approximateVariance opts) = 0) \<longrightarrow>
                 minDate r = startOf (case format r of YYYY \<Rightarrow> Year | YYYY_MM \<Rightarrow> Month
                                        | YYYY_MM_DD \<Rightarrow> Day)
                               (moment_utc (cleanEdtf r) (format r))
                 \<and> maxDate r = endOf (case format r of YYYY \<Rightarrow> Year | YYYY_MM \<Rightarrow> Month
                                         | YYYY_MM_DD \<Rightarrow> Day)
                                 (moment_utc (cleanEdtf r) (format r))
                 \<and> (\<forall>opts' piece' r'.
                       parsePart opts' piece' = Inr r' \<and> \<not> isApproximate r'
                       \<and> cleanEdtf r' = cleanEdtf r \<longrightarrow>
                       minDate r' = minDate r \<and> maxDate r' = maxDate r))"
proof -
  let ?v = "approximateVariance opts"
  from assms(1,2) obtain r where r: "parsePart opts piece = Inr r"
    using parsePart_valid by blast
  note flags = parsePart_flags [OF r]
  note fields = parsePart_fields [OF r]
  have approx: "isApproximate r"
    using flags(1) assms(1,3) by (simp add: test_any_class approximateRegex_def)
  have clean: "cleanEdtf r = filter (\<lambda>c. c \<notin> set stripped_chars) s"
    using fields(1) assms(1) by simp
  have valid: "s \<in> lang edtfRegex"
    using assms(2) by (simp add: validateEdtfPart_iff)
  have year: "format r = YYYY
      \<and> minDate r = startOf Year (moment_subtract (years ?v) Year (moment_utc (cleanEdtf r) YYYY))
      \<and> maxDate r = endOf Year (moment_add (years ?v) Year (moment_utc (cleanEdtf r) YYYY))
      \<and> minDate r = clip \<lparr>year = toInt (cleanEdtf r) - years ?v, month = 1, day = 1,
                           hour = 0, minute = 0, second = 0, millisecond = 0\<rparr>
      \<and> maxDate r =
          (if in_range \<lparr>year = toInt (cleanEdtf r) + years ?v, month = 1, day = 1,
                        hour = 0, minute = 0, second = 0, millisecond = 0\<rparr>
           then clip \<lparr>year = toInt (cleanEdtf r) + years ?v, month = 12, day = 31,
                      hour = 23, minute = 59, second = 59, millisecond = 999\<rparr>
           else InvalidDate)"
    if four: "length (cleanEdtf r) = 4"
  proof -
    have digits: "list_all is_digit (cleanEdtf r)"
      using cleaned_year [OF valid] four unfolding clean by simp
    have lo: "minDate r = startOf Year (moment_subtract (years ?v) Year
                                          (moment_utc (cleanEdtf r) YYYY))"
      and hi: "maxDate r = endOf Year (moment_add (years ?v) Year (moment_utc (cleanEdtf r) YYYY))"
      using fields(3,4) four approx by simp_all
    show ?thesis
      using fields(2) four lo hi
        year_bounds_explicit(1) [OF digits four, of "- years ?v"]
        year_bounds_explicit(2) [OF digits four, of "years ?v"]
      by (simp add: moment_subtract_def)
  qed
  have month: "format r = YYYY_MM
      \<and> minDate r = startOf Month (moment_subtract (months ?v) Month
                                      (moment_utc (cleanEdtf r) YYYY_MM))
      \<and> maxDate r = endOf Month (moment_add (months ?v) Month (moment_utc (cleanEdtf r) YYYY_MM))"
    if "length (cleanEdtf r) = 7"
    using fields(2,3,4) that approx by simp
  have day: "format r = YYYY_MM_DD
      \<and> minDate r = startOf Day (moment_subtract (days ?v) Day
                                    (moment_utc (cleanEdtf r) YYYY_MM_DD))
      \<and> maxDate r = endOf Day (moment_add (days ?v) Day (moment_utc (cleanEdtf r) YYYY_MM_DD))"
    if "length (cleanEdtf r) \<noteq> 4 \<and> length (cleanEdtf r) \<noteq> 7"
    using fields(2,3,4) that approx by simp
  have zero: "minDate r = startOf (case format r of YYYY \<Rightarrow> Year | YYYY_MM \<Rightarrow> Month
                                     | YYYY_MM_DD \<Rightarrow> Day)
                            (moment_utc (cleanEdtf r) (format r))
              \<and> maxDate r = endOf (case format r of YYYY \<Rightarrow> Year | YYYY_MM \<Rightarrow> Month
                                      | YYYY_MM_DD \<Rightarrow> Day)
                              (moment_utc (cleanEdtf r) (format r))
              \<and> (\<forall>opts' piece' r'.
                    parsePart opts' piece' = Inr r' \<and> \<not> isApproximate r'
                    \<and> cleanEdtf r' = cleanEdtf r \<longrightarrow>
                    minDate r' = minDate r \<and> maxDate r' = maxDate r)"
    if z: "length (cleanEdtf r) = 4 \<and> years ?v = 0
           \<or> length (cleanEdtf r) = 7 \<and> months ?v = 0
           \<or> length (cleanEdtf r) \<noteq> 4 \<and> length (cleanEdtf r) \<noteq> 7 \<and> days ?v = 0"
  proof -
    have own: "minDate r = startOf (case format r of YYYY \<Rightarrow> Year | YYYY_MM \<Rightarrow> Month
                                      | YYYY_MM_DD \<Rightarrow> Day)
                             (moment_utc (cleanEdtf r) (format r))"
      "maxDate r = endOf (case format r of YYYY \<Rightarrow> Year | YYYY_MM \<Rightarrow> Month
                            | YYYY_MM_DD \<Rightarrow> Day)
                     (moment_utc (cleanEdtf r) (format r))"
      using z fields(2,3,4) approx by (auto simp: moment_add_zero)
    have other: "minDate r' = minDate r \<and> maxDate r' = maxDate r"
      if r': "parsePart opts' piece' = Inr r'" "\<not> isApproximate r'"
        "cleanEdtf r' = cleanEdtf r" for opts' piece' r'
      using parsePart_fields(2,3,4) [OF r'(1)] r'(2,3) own fields(2)
      by (auto split: if_splits)
    show ?thesis using own other by blast
  qed
  show ?thesis
    using r approx clean year month day zero by blast
qed

theorem approximate_range_witness:
  "map_sum id minDate (parsePart sampleOptions ''~1930-05-03'')
     = Inr (Moment \<lparr>year = 1930, month = 4, day = 28,
                     hour = 0, minute = 0, second = 0, millisecond = 0\<rparr>)
   \<and> map_sum id maxDate (parsePart sampleOptions ''~1930-05-03'')
     = Inr (Moment \<lparr>year = 1930, month = 5, day = 8,
                     hour = 23, minute = 59, second = 59, millisecond = 999\<rparr>)
   \<and> map_sum id minDate (parsePart sampleOptions ''1930-05 %'')
     = Inr (Moment \<lparr>year = 1930, month = 3, day = 1,
                     hour = 0, minute = 0, second = 0, millisecond = 0\<rparr>)
   \<and> map_sum id maxDate (parsePart sampleOptions ''1930-05 %'')
     = Inr (Moment \<lparr>year = 1930, month = 7, day = 31,
                     hour = 23, minute = 59, second = 59, millisecond = 999\<rparr>)
   \<and> map_sum id minDate (parsePart sampleOptions ''~1930'')
     = Inr (Moment \<lparr>year = 1929, month = 1, day = 1,
                     hour = 0, minute = 0, second = 0, millisecond = 0\<rparr>)
   \<and> map_sum id maxDate (parsePart sampleOptions ''~1930'')
     = Inr (Moment \<lparr>year = 1931, month = 12, day = 31,
                     hour = 23, minute = 59, second = 59, millisecond = 999\<rparr>)"
proof -
  have plain: "snd (removeCustomModifiers (customModifiers sampleOptions) ([], p)) = p" for p
    by (simp add: sampleOptions_def)
  have accepted: "validateEdtfPart ''~1930-05-03'' = Inr ()"
    "validateEdtfPart ''1930-05 %'' = Inr ()" "validateEdtfPart ''~1930'' = Inr ()"
    by (simp_all add: validateEdtfPart_def test_whole_def regex_defs)
  have marked: "CHR ''~'' \<in> set ''~1930-05-03'' \<or> CHR ''%'' \<in> set ''~1930-05-03''"
    "CHR ''~'' \<in> set ''1930-05 %'' \<or> CHR ''%'' \<in> set ''1930-05 %''"
    "CHR ''~'' \<in> set ''~1930'' \<or> CHR ''%'' \<in> set ''~1930''"
    by simp_all
  have cleaned: "filter (\<lambda>c. c \<notin> set stripped_chars) ''~1930-05-03'' = ''1930-05-03''"
    "filter (\<lambda>c. c \<notin> set stripped_chars) ''1930-05 %'' = ''1930-05''"
    "filter (\<lambda>c. c \<notin> set stripped_chars) ''~1930'' = ''1930''"
    by (simp_all add: stripped_chars_def space_chars_def)
  have shifted:
    "startOf Day (moment_subtract 5 Day (moment_utc ''1930-05-03'' YYYY_MM_DD))
       = Moment \<lparr>year = 1930, month = 4, day = 28,
                  hour = 0, minute = 0, second = 0, millisecond = 0\<rparr>"
    "endOf Day (moment_add 5 Day (moment_utc ''1930-05-03'' YYYY_MM_DD))
       = Moment \<lparr>year = 1930, month = 5, day = 8,
                  hour = 23, minute = 59, second = 59, millisecond = 999\<rparr>"
    "startOf Month (moment_subtract 2 Month (moment_utc ''1930-05'' YYYY_MM))
       = Moment \<lparr>year = 1930, month = 3, day = 1,
                  hour = 0, minute = 0, second = 0, millisecond = 0\<rparr>"
    "endOf Month (moment_add 2 Month (moment_utc ''1930-05'' YYYY_MM))
       = Moment \<lparr>year = 1930, month = 7, day = 31,
                  hour = 23, minute = 59, second = 59, millisecond = 999\<rparr>"
    "startOf Year (moment_subtract 1 Year (moment_utc ''1930'' YYYY))
       = Moment \<lparr>year = 1929, month = 1, day = 1,
                  hour = 0, minute = 0, second = 0, millisecond = 0\<rparr>"
    "endOf Year (moment_add 1 Year (moment_utc ''1930'' YYYY))
       = Moment \<lparr>year = 1931, month = 12, day = 31,
                  hour = 23, minute = 59, second = 59, millisecond = 999\<rparr>"
    by (simp_all add: parse_defs moment_subtract_def add_months_def add_days.simps
          next_day_def prev_day_def)
  have variance: "days (approximateVariance sampleOptions) = 5"
    "months (approximateVariance sampleOptions) = 2"
    "years (approximateVariance sampleOptions) = 1"
    by (simp_all add: sampleOptions_def)
  from approximate_range [OF plain accepted(1) marked(1)]
  obtain d where d: "parsePart sampleOptions ''~1930-05-03'' = Inr d"
    and dc: "cleanEdtf d = filter (\<lambda>c. c \<notin> set stripped_chars) ''~1930-05-03''"
    and dd: "length (cleanEdtf d) \<noteq> 4 \<and> length (cleanEdtf d) \<noteq> 7 \<longrightarrow>
               format d = YYYY_MM_DD
               \<and> minDate d = startOf Day (moment_subtract (days (approximateVariance sampleOptions))
                                Day (moment_utc (cleanEdtf d) YYYY_MM_DD))
               \<and> maxDate d = endOf Day (moment_add (days (approximateVariance sampleOptions))
                                Day (moment_utc (cleanEdtf d) YYYY_MM_DD))"
    by blast
  have "cleanEdtf d = ''1930-05-03''"
    using dc by (simp only: cleaned)
  with dd have day_bounds:
    "minDate d = Moment \<lparr>year = 1930, month = 4, day = 28,
                          hour = 0, minute = 0, second = 0, millisecond = 0\<rparr>"
    "maxDate d = Moment \<lparr>year = 1930, month = 5, day = 8,
                          hour = 23, minute = 59, second = 59, millisecond = 999\<rparr>"
    by (simp_all add: variance shifted)
  from approximate_range [OF plain accepted(2) marked(2)]
  obtain m where m: "parsePart sampleOptions ''1930-05 %'' = Inr m"
    and mc: "cleanEdtf m = filter (\<lambda>c. c \<notin> set stripped_chars) ''1930-05 %''"
    and mm: "length (cleanEdtf m) = 7 \<longrightarrow>
               format m = YYYY_MM
               \<and> minDate m = startOf Month (moment_subtract (months (approximateVariance sampleOptions))
                                Month (moment_utc (cleanEdtf m) YYYY_MM))
               \<and> maxDate m = endOf Month (moment_add (months (approximateVariance sampleOptions))
                                Month (moment_utc (cleanEdtf m) YYYY_MM))"
    by blast
  have "cleanEdtf m = ''1930-05''"
    using mc by (simp only: cleaned)
  with mm have month_bounds:
    "minDate m = Moment \<lparr>year = 1930, month = 3, day = 1,
                          hour = 0, minute = 0, second = 0, millisecond = 0\<rparr>"
    "maxDate m = Moment \<lparr>year = 1930, month = 7, day = 31,
                          hour = 23, minute = 59, second = 59, millisecond = 999\<rparr>"
    by (simp_all add: variance shifted)
  from approximate_range [OF plain accepted(3) marked(3)]
  obtain y where y: "parsePart sampleOptions ''~1930'' = Inr y"
    and yc: "cleanEdtf y = filter (\<lambda>c. c \<notin> set stripped_chars) ''~1930''"
    and yy: "length (cleanEdtf y) = 4 \<longrightarrow>
               format y = YYYY
               \<and> minDate y = startOf Year (moment_subtract (years (approximateVariance sampleOptions))
                                Year (moment_utc (cleanEdtf y) YYYY))
               \<and> maxDate y = endOf Year (moment_add (years (approximateVariance sampleOptions))
                                Year (moment_utc (cleanEdtf y) YYYY))"
    by blast
  have "cleanEdtf y = ''1930''"
    using yc by (simp only: cleaned)
  with yy have year_bounds:
    "minDate y = Moment \<lparr>year = 1929, month = 1, day = 1,
                          hour = 0, minute = 0, second = 0, millisecond = 0\<rparr>"
    "maxDate y = Moment \<lparr>year = 1931, month = 12, day = 31,
                          hour = 23, minute = 59, second = 59, millisecond = 999\<rparr>"
    by (simp_all add: variance shifted)
  show ?thesis
    by (simp add: d m y day_bounds month_bounds year_bounds)
qed

text \<open>
  Claim C3, as amended. A segment that passes the validator and holds neither \<open>~\<close>
  nor \<open>%\<close> is parsed as not approximate; its lower bound is the start and its upper
  bound the end of the unit of the base instant, the unit going with the length of the
  clean date. For the year format these are 1 January 00:00:00.000 and 31 December
  23:59:59.999 of that year. When the clean date is a date that exists, both bounds
  are valid dates and the lower one is not after the upper one; when it is not, both
  bounds are invalid dates. For every parsed segment, approximate or not, with
  variances that are not negative: if both bounds are valid dates, the lower bound is
  not after the upper bound.
\<close>

theorem resolved_range:
  assumes "snd (removeCustomModifiers (customModifiers opts) ([], piece)) = s"
    and "validateEdtfPart s = Inr ()"
  shows "\<exists>r. parsePart opts piece = Inr r
           \<and> cleanEdtf r = filter (\<lambda>c. c \<notin> set stripped_chars) s
           \<and> (CHR ''~'' \<notin> set s \<and> CHR ''%'' \<notin> set s \<longrightarrow>
                 \<not> isApproximate r
                 \<and> (length (cleanEdtf r) = 4 \<longrightarrow>
                       format r = YYYY
                       \<and> minDate r = startOf Year (moment_utc (cleanEdtf r) YYYY)
                       \<and> maxDate r = endOf Year (moment_utc (cleanEdtf r) YYYY)
                       \<and> minDate r = Moment \<lparr>year = toInt (cleanEdtf r), month = 1, day = 1,
                                              hour = 0, minute = 0, second = 0, millisecond = 0\<rparr>
                       \<and> maxDate r = Moment \<lparr>year = toInt (cleanEdtf r), month = 12, day = 31,
                                              hour = 23, minute = 59, second = 59,
                                              millisecond = 999\<rparr>)
                 \<and> (length (cleanEdtf r) = 7 \<longrightarrow>
                       format r = YYYY_MM
                       \<and> minDate r = startOf Month (moment_utc (cleanEdtf r) YYYY_MM)
                       \<and> maxDate r = endOf Month (moment_utc (cleanEdtf r) YYYY_MM))
                 \<and> (length (cleanEdtf r) \<noteq> 4 \<and> length (cleanEdtf r) \<noteq> 7 \<longrightarrow>
                       format r = YYYY_MM_DD
                       \<and> minDate r = startOf Day (moment_utc (cleanEdtf r) YYYY_MM_DD)
                       \<and> maxDate r = endOf Day (moment_utc (cleanEdtf r) YYYY_MM_DD))
                 \<and> (moment_utc (cleanEdtf r) (format r) \<noteq> InvalidDate \<longrightarrow>
                       minDate r \<noteq> InvalidDate \<and> maxDate r \<noteq> InvalidDate
                       \<and> moment_le (minDate r) (maxDate r))
                 \<and> (moment_utc (cleanEdtf r) (format r) = InvalidDate \<longrightarrow>
                       minDate r = InvalidDate \<and> maxDate r = InvalidDate))
           \<and> (0 \<le> years (approximateVariance opts) \<and> 0 \<le> months (approximateVariance opts)
                \<and> 0 \<le> days (approximateVariance opts)
                \<and> minDate r \<noteq> InvalidDate \<and> maxDate r \<noteq> InvalidDate \<longrightarrow>
                 moment_le (minDate r) (maxDate r))"
proof -
  from assms obtain r where r: "parsePart opts piece = Inr r"
    using parsePart_valid by blast
  note flags = parsePart_flags [OF r]
  note fields = parsePart_fields [OF r]
  have clean: "cleanEdtf r = filter (\<lambda>c. c \<notin> set stripped_chars) s"
    using fields(1) assms(1) by simp
  have valid: "s \<in> lang edtfRegex"
    using assms(2) by (simp add: validateEdtfPart_iff)
  have ordered: "moment_le (minDate r) (maxDate r)"
    if "0 \<le> years (approximateVariance opts) \<and> 0 \<le> months (approximateVariance opts)
        \<and> 0 \<le> days (approximateVariance opts)
        \<and> minDate r \<noteq> InvalidDate \<and> maxDate r \<noteq> InvalidDate"
    using parsed_bounds_ordered [OF r] that by blast
  have exact:
    "\<not> isApproximate r
     \<and> (length (cleanEdtf r) = 4 \<longrightarrow>
           format r = YYYY
           \<and> minDate r = startOf Year (moment_utc (cleanEdtf r) YYYY)
           \<and> maxDate r = endOf Year (moment_utc (cleanEdtf r) YYYY)
           \<and> minDate r = Moment \<lparr>year = toInt (cleanEdtf r), month = 1, day = 1,
                                  hour = 0, minute = 0, second = 0, millisecond = 0\<rparr>
           \<and> maxDate r = Moment \<lparr>year = toInt (cleanEdtf r), month = 12, day = 31,
                                  hour = 23, minute = 59, second = 59, millisecond = 999\<rparr>)
     \<and> (length (cleanEdtf r) = 7 \<longrightarrow>
           format r = YYYY_MM
           \<and> minDate r = startOf Month (moment_utc (cleanEdtf r) YYYY_MM)
           \<and> maxDate r = endOf Month (moment_utc (cleanEdtf r) YYYY_MM))
     \<and> (length (cleanEdtf r) \<noteq> 4 \<and> length (cleanEdtf r) \<noteq> 7 \<longrightarrow>
           format r = YYYY_MM_DD
           \<and> minDate r = startOf Day (moment_utc (cleanEdtf r) YYYY_MM_DD)
           \<and> maxDate r = endOf Day (moment_utc (cleanEdtf r) YYYY_MM_DD))
     \<and> (moment_utc (cleanEdtf r) (format r) \<noteq> InvalidDate \<longrightarrow>
           minDate r \<noteq> InvalidDate \<and> maxDate r \<noteq> InvalidDate
           \<and> moment_le (minDate r) (maxDate r))
     \<and> (moment_utc (cleanEdtf r) (format r) = InvalidDate \<longrightarrow>
           minDate r = InvalidDate \<and> maxDate r = InvalidDate)"
    if plain: "CHR ''~'' \<notin> set s \<and> CHR ''%'' \<notin> set s"
  proof -
    have exactly: "\<not> isApproximate r"
      using flags(1) assms(1) plain by (simp add: test_any_class approximateRegex_def)
    have year: "format r = YYYY
        \<and> minDate r = startOf Year (moment_utc (cleanEdtf r) YYYY)
        \<and> maxDate r = endOf Year (moment_utc (cleanEdtf r) YYYY)
        \<and> minDate r = Moment \<lparr>year = toInt (cleanEdtf r), month = 1, day = 1,
                               hour = 0, minute = 0, second = 0, millisecond = 0\<rparr>
        \<and> maxDate r = Moment \<lparr>year = toInt (cleanEdtf r), month = 12, day = 31,
                               hour = 23, minute = 59, second = 59, millisecond = 999\<rparr>"
      if four: "length (cleanEdtf r) = 4"
    proof -
      have digits: "list_all is_digit (cleanEdtf r)"
        using cleaned_year [OF valid] four unfolding clean by simp
      show ?thesis
        using fields(2,3,4) four exactly year_bounds_plain [OF digits four] by simp
    qed
    have month: "format r = YYYY_MM
        \<and> minDate r = startOf Month (moment_utc (cleanEdtf r) YYYY_MM)
        \<and> maxDate r = endOf Month (moment_utc (cleanEdtf r) YYYY_MM)"
      if "length (cleanEdtf r) = 7"
      using fields(2,3,4) that exactly by simp
    have day: "format r = YYYY_MM_DD
        \<and> minDate r = startOf Day (moment_utc (cleanEdtf r) YYYY_MM_DD)
        \<and> maxDate r = endOf Day (moment_utc (cleanEdtf r) YYYY_MM_DD)"
      if "length (cleanEdtf r) \<noteq> 4 \<and> length (cleanEdtf r) \<noteq> 7"
      using fields(2,3,4) that exactly by simp
    define u where "u = (if length (cleanEdtf r) = 4 then Year
                         else if length (cleanEdtf r) = 7 then Month else Day)"
    have unit: "minDate r = startOf u (moment_utc (cleanEdtf r) (format r))"
      "maxDate r = endOf u (moment_utc (cleanEdtf r) (format r))"
      using fields(2,3,4) exactly by (simp_all add: u_def)
    have existing: "minDate r \<noteq> InvalidDate \<and> maxDate r \<noteq> InvalidDate
        \<and> moment_le (minDate r) (maxDate r)"
      if "moment_utc (cleanEdtf r) (format r) \<noteq> InvalidDate"
    proof -
      from that obtain c where c: "moment_utc (cleanEdtf r) (format r) = Moment c"
        by (cases "moment_utc (cleanEdtf r) (format r)") auto
      have both: "minDate r \<noteq> InvalidDate" "maxDate r \<noteq> InvalidDate"
        using unit_bounds_valid [OF c, of u] unit unfolding c by simp_all
      moreover have "moment_le (minDate r) (maxDate r)"
        using parsed_bounds_ordered [OF r _ both] exactly by simp
      ultimately show ?thesis by simp
    qed
    have missing: "minDate r = InvalidDate \<and> maxDate r = InvalidDate"
      if "moment_utc (cleanEdtf r) (format r) = InvalidDate"
      using unit that by simp
    show ?thesis
      using exactly year month day existing missing by blast
  qed
  show ?thesis
    using r clean exact ordered by blast
qed


theorem resolved_range_witness:
  "map_sum id minDate (parsePart sampleOptions ''1930-05'')
     = Inr (Moment \<lparr>year = 1930, month = 5, day = 1,
                     hour = 0, minute = 0, second = 0, millisecond = 0\<rparr>)
   \<and> map_sum id maxDate (parsePart sampleOptions ''1930-05'')
     = Inr (Moment \<lparr>year = 1930, month = 5, day = 31,
                     hour = 23, minute = 59, second = 59, millisecond = 999\<rparr>)
   \<and> moment_le (Moment \<lparr>year = 1930, month = 5, day = 1,
                         hour = 0, minute = 0, second = 0, millisecond = 0\<rparr>)
                (Moment \<lparr>year = 1930, month = 5, day = 31,
                         hour = 23, minute = 59, second = 59, millisecond = 999\<rparr>)"
proof -
  have plain: "snd (removeCustomModifiers (customModifiers sampleOptions) ([], ''1930-05''))
      = ''1930-05''"
    by (simp add: sampleOptions_def)
  have accepted: "validateEdtfPart ''1930-05'' = Inr ()"
    by (simp add: validateEdtfPart_def test_whole_def regex_defs)
  have cleaned: "filter (\<lambda>c. c \<notin> set stripped_chars) ''1930-05'' = ''1930-05''"
    by (simp add: stripped_chars_def space_chars_def)
  have unit:
    "startOf Month (moment_utc ''1930-05'' YYYY_MM)
       = Moment \<lparr>year = 1930, month = 5, day = 1,
                  hour = 0, minute = 0, second = 0, millisecond = 0\<rparr>"
    "endOf Month (moment_utc ''1930-05'' YYYY_MM)
       = Moment \<lparr>year = 1930, month = 5, day = 31,
                  hour = 23, minute = 59, second = 59, millisecond = 999\<rparr>"
    "moment_utc ''1930-05'' YYYY_MM \<noteq> InvalidDate"
    by (simp_all add: parse_defs)
  have unmarked: "CHR ''~'' \<notin> set ''1930-05'' \<and> CHR ''%'' \<notin> set ''1930-05''"
    by simp
  from resolved_range [OF plain accepted] unmarked
  obtain m where m: "parsePart sampleOptions ''1930-05'' = Inr m"
    and mc: "cleanEdtf m = filter (\<lambda>c. c \<notin> set stripped_chars) ''1930-05''"
    and mm: "length (cleanEdtf m) = 7 \<longrightarrow>
               format m = YYYY_MM
               \<and> minDate m = startOf Month (moment_utc (cleanEdtf m) YYYY_MM)
               \<and> maxDate m = endOf Month (moment_utc (cleanEdtf m) YYYY_MM)"
    and mo: "moment_utc (cleanEdtf m) (format m) \<noteq> InvalidDate \<longrightarrow>
               minDate m \<noteq> InvalidDate \<and> maxDate m \<noteq> InvalidDate
               \<and> moment_le (minDate m) (maxDate m)"
    by blast
  have c: "cleanEdtf m = ''1930-05''"
    using mc by (simp only: cleaned)
  with mm have bounds:
    "format m = YYYY_MM"
    "minDate m = Moment \<lparr>year = 1930, month = 5, day = 1,
                          hour = 0, minute = 0, second = 0, millisecond = 0\<rparr>"
    "maxDate m = Moment \<lparr>year = 1930, month = 5, day = 31,
                          hour = 23, minute = 59, second = 59, millisecond = 999\<rparr>"
    by (simp_all add: unit)
  have "moment_le (minDate m) (maxDate m)"
    using mo unit(3) unfolding c bounds(1) by simp
  then show ?thesis
    by (simp add: m bounds)
qed


text \<open>
  The claim as stated promises the order for every parsed segment. The validator lets
  through days that the month does not have; the library parses such a date to an
  invalid date, both bounds are invalid, and an invalid date is not before or equal to
  anything.
\<close>

theorem nonexistent_day_counterexample:
  "map_sum id minDate (parsePart DEFAULT_OPTIONS ''1930-02-31'') = Inr InvalidDate
   \<and> map_sum id maxDate (parsePart DEFAULT_OPTIONS ''1930-02-31'') = Inr InvalidDate
   \<and> \<not> moment_le InvalidDate InvalidDate"
  by (simp add: parse_defs regex_defs)


text \<open>
  A variance that moves the bounds outside the range of dates has the same effect on a
  date that exists.
\<close>

lemma variance_beyond_the_date_range:
  "map_sum id minDate
     (parsePart (DEFAULT_OPTIONS\<lparr>approximateVariance := \<lparr>days = 3, months = 3, years = 274000\<rparr>\<rparr>)
        ''~1930'') = Inr InvalidDate"
  "map_sum id maxDate
     (parsePart (DEFAULT_OPTIONS\<lparr>approximateVariance := \<lparr>days = 3, months = 3, years = 274000\<rparr>\<rparr>)
        ''~1930'') = Inr InvalidDate"
  by (simp_all add: parse_defs regex_defs moment_subtract_def add_months_def)

end
